theory Spec2Isabelle
  imports Main
begin

section \<open>Data model\<close>

text \<open>
  A message is the object literal \<^verbatim>\<open>{ role: ..., content: ... }\<close> of the three
  \<^verbatim>\<open>App\<close> components. Both fields are JavaScript strings. The sources write the two
  roles as the string literals \<^verbatim>\<open>"user"\<close> and \<^verbatim>\<open>"ai"\<close>; the latter is the role
  the specification calls \<open>assistant\<close>.
\<close>

record message =
  role :: string
  content :: string

text \<open>
  The component state: the two \<^verbatim>\<open>useState\<close> cells \<^verbatim>\<open>input\<close> and \<^verbatim>\<open>messages\<close> as
  React last rendered them, the invocations of the asynchronous \<^verbatim>\<open>sendMessage\<close> (one
  task per call that got past its synchronous prefix), and the log of the calls made to
  \<^verbatim>\<open>fetch\<close> (URL and the \<^verbatim>\<open>message\<close> field of the JSON body). The type \<open>'r\<close> of the
  array elements is \<^typ>\<open>message\<close> where the code never mutates a message object, and an
  address into an object store where it does.
\<close>

record ('r, 't) app =
  input :: string
  messages :: "'r list"
  tasks :: "'t list"
  requests :: "(string \<times> string) list"

text \<open>
  An invocation of a streaming \<^verbatim>\<open>sendMessage\<close> is suspended at \<^verbatim>\<open>await fetch(...)\<close>,
  or at \<^verbatim>\<open>await reader.read()\<close>, or it has returned, or it has been rejected (nothing
  catches the rejection).
\<close>

datatype task = Fetching | Reading | Finished | Failed

text \<open>
  What happens to the component: a change of the input field, a click on the button, a
  render by React, and for the \<open>i\<close>-th invocation the outcome of \<^verbatim>\<open>fetch\<close> and of each
  \<^verbatim>\<open>reader.read()\<close>. A chunk is a \<^verbatim>\<open>Uint8Array\<close>; its type is left open as \<open>'c\<close>,
  and \<^verbatim>\<open>decoder.decode\<close> (a platform function, called without the streaming option, so
  every call decodes its chunk on its own) is the parameter \<open>decode\<close> of the step
  functions.
\<close>

datatype 'c event =
    SetInput string
  | Click
  | Render
  | FetchOk nat
  | FetchFail nat
  | ReadChunk nat 'c
  | ReadDone nat
  | ReadFail nat

text \<open>
  \<^verbatim>\<open>setMessages\<close> is called with a function of the previous array. React queues the
  function and calls it when it next renders. The streaming components queue two
  functions: the one of the synchronous prefix, which appends the two messages of a turn
  and closes over the constant \<^verbatim>\<open>input\<close> (or \<^verbatim>\<open>userMsg\<close>), and the one of the read
  loop, which writes the last element and closes over the variable \<^verbatim>\<open>aiText\<close> of its
  invocation, reading it when it is called.
\<close>

datatype updater = AppendTurn string | WriteLast nat

text \<open>
  The state of a streaming component has, besides, the variable \<^verbatim>\<open>aiText\<close> of every
  invocation and the queue of the functions not yet called.
\<close>

record 'r streaming = "('r, task) app" +
  aiText :: "nat \<Rightarrow> string"
  pending :: "updater list"

definition task_at :: "('r, 't, 'z) app_scheme \<Rightarrow> nat \<Rightarrow> 't option" where
  "task_at st i = (if i < length (tasks st) then Some (tasks st ! i) else None)"

section \<open>The streaming component of 003-stream\<close>

text \<open>
  \<^verbatim>\<open>src/example/003-stream/vite-frontend/src/App.jsx\<close>. No object is mutated after
  its creation here, so messages are held by value.
\<close>

type_synonym stream_app = "message streaming"

definition init_stream :: stream_app where
  "init_stream =
     \<lparr>input = [], messages = [], tasks = [], requests = [], aiText = (\<lambda>i. []), pending = []\<rparr>"

text \<open>
  Lines 30 to 34: the updater \<^verbatim>\<open>copy[copy.length - 1] = { role: "ai", content: aiText }\<close>.
  On an empty array the index is \<open>-1\<close>, the assignment sets a property that is no
  element, and the elements stay as they are.
\<close>

definition replaceLast :: "string \<Rightarrow> message list \<Rightarrow> message list" where
  "replaceLast txt prev =
     (if prev = [] then prev
      else prev[length prev - 1 := \<lparr>role = ''ai'', content = txt\<rparr>])"

text \<open>
  A queued function is called with the previous array; \<open>txt\<close> gives the present value
  of each invocation's \<^verbatim>\<open>aiText\<close>. Line 10 is the appending function.
\<close>

fun call_stream :: "(nat \<Rightarrow> string) \<Rightarrow> updater \<Rightarrow> message list \<Rightarrow> message list" where
  "call_stream txt (AppendTurn s) prev =
     prev @ [\<lparr>role = ''user'', content = s\<rparr>, \<lparr>role = ''ai'', content = []\<rparr>]"
| "call_stream txt (WriteLast i) prev = replaceLast (txt i) prev"

text \<open>A render calls the queued functions in the order they were queued.\<close>

definition render_stream :: "stream_app \<Rightarrow> stream_app" where
  "render_stream st =
     st\<lparr>messages := fold (call_stream (aiText st)) (pending st) (messages st), pending := []\<rparr>"

text \<open>
  Lines 9 to 17: the synchronous prefix of \<^verbatim>\<open>sendMessage\<close>, which has no guard. React
  renders when the handler of a user event has returned.
\<close>

definition sendMessage_stream :: "stream_app \<Rightarrow> stream_app" where
  "sendMessage_stream st =
     (let userMsg = \<lparr>role = ''user'', content = input st\<rparr> in
      render_stream
        (st\<lparr>pending := pending st @ [AppendTurn (content userMsg)],
            input := [],
            requests := requests st @ [(''/api/chat-stream'', content userMsg)],
            tasks := tasks st @ [Fetching]\<rparr>))"

text \<open>
  One event. An event for an invocation that is not waiting for it cannot happen and
  leaves the state as it is. Line 22 sets \<^verbatim>\<open>aiText\<close> when the response is in; lines 28
  to 34 extend it by the decoded chunk and queue the function that writes the last
  element. That function runs at the next render, whichever event brings it.
\<close>

fun step_stream :: "('c \<Rightarrow> string) \<Rightarrow> 'c event \<Rightarrow> stream_app \<Rightarrow> stream_app" where
  "step_stream decode (SetInput s) st = render_stream (st\<lparr>input := s\<rparr>)"
| "step_stream decode Click st = sendMessage_stream st"
| "step_stream decode Render st = render_stream st"
| "step_stream decode (FetchOk i) st =
     (if task_at st i = Some Fetching
      then st\<lparr>tasks := (tasks st)[i := Reading], aiText := (aiText st)(i := [])\<rparr>
      else st)"
| "step_stream decode (FetchFail i) st =
     (if task_at st i = Some Fetching then st\<lparr>tasks := (tasks st)[i := Failed]\<rparr> else st)"
| "step_stream decode (ReadChunk i v) st =
     (if task_at st i = Some Reading
      then st\<lparr>aiText := (aiText st)(i := aiText st i @ decode v),
              pending := pending st @ [WriteLast i]\<rparr>
      else st)"
| "step_stream decode (ReadDone i) st =
     (if task_at st i = Some Reading then st\<lparr>tasks := (tasks st)[i := Finished]\<rparr> else st)"
| "step_stream decode (ReadFail i) st =
     (if task_at st i = Some Reading then st\<lparr>tasks := (tasks st)[i := Failed]\<rparr> else st)"

definition run_stream :: "('c \<Rightarrow> string) \<Rightarrow> 'c event list \<Rightarrow> stream_app \<Rightarrow> stream_app" where
  "run_stream decode es st = fold (step_stream decode) es st"

section \<open>The streaming component with in-place update\<close>

text \<open>
  \<^verbatim>\<open>src/unnamed/part_000\<close>. Its updater writes the \<^verbatim>\<open>content\<close> field of an object
  that the previous array holds too, so message objects live in a store: an address is
  an index into \<open>heap\<close>, an object literal allocates the next index, and the array in
  the state holds addresses. An exception thrown by an updater is not caught by any
  error boundary; React then unmounts the component, which \<open>fault\<close> records.
\<close>

datatype js_error = TypeError

record chat_app = "nat streaming" +
  heap :: "message list"
  fault :: "js_error option"

definition init_chat :: chat_app where
  "init_chat =
     \<lparr>input = [], messages = [], tasks = [], requests = [], aiText = (\<lambda>i. []), pending = [],
      heap = [], fault = None\<rparr>"

text \<open>What the component shows: the objects the array refers to, read at render time.\<close>

definition transcript :: "chat_app \<Rightarrow> message list" where
  "transcript st = map (\<lambda>a. heap st ! a) (messages st)"

text \<open>
  Lines 29 to 33: the updater \<^verbatim>\<open>copy[copy.length - 1].content = aiText\<close>. The copy
  holds the addresses of \<open>prev\<close>, so the array of the new state equals the old one and
  the write goes to the store. On an empty array \<^verbatim>\<open>copy[-1]\<close> is \<^verbatim>\<open>undefined\<close> and the
  assignment throws a TypeError.
\<close>

definition setLastContent :: "string \<Rightarrow> nat list \<Rightarrow> message list \<Rightarrow> js_error + message list" where
  "setLastContent txt prev h =
     (if prev = [] then Inl TypeError
      else
        (let a = prev ! (length prev - 1) in
         Inr (h[a := (h ! a)\<lparr>content := txt\<rparr>])))"

text \<open>
  A queued function is called with the previous array and the store. Line 11 is the
  appending function; its two object literals are allocated when it is called.
\<close>

fun call_chat ::
  "(nat \<Rightarrow> string) \<Rightarrow> updater \<Rightarrow> nat list \<times> message list \<Rightarrow> js_error + nat list \<times> message list"
where
  "call_chat txt (AppendTurn s) (prev, h) =
     Inr (prev @ [length h, Suc (length h)],
          h @ [\<lparr>role = ''user'', content = s\<rparr>, \<lparr>role = ''ai'', content = []\<rparr>])"
| "call_chat txt (WriteLast i) (prev, h) =
     (case setLastContent (txt i) prev h of
        Inl err \<Rightarrow> Inl err
      | Inr h' \<Rightarrow> Inr (prev, h'))"

fun call_all ::
  "(nat \<Rightarrow> string) \<Rightarrow> updater list \<Rightarrow> nat list \<times> message list \<Rightarrow> js_error + nat list \<times> message list"
where
  "call_all txt [] x = Inr x"
| "call_all txt (u # us) x =
     (case call_chat txt u x of
        Inl err \<Rightarrow> Inl err
      | Inr y \<Rightarrow> call_all txt us y)"

definition render_chat :: "chat_app \<Rightarrow> chat_app" where
  "render_chat st =
     (case call_all (aiText st) (pending st) (messages st, heap st) of
        Inl err \<Rightarrow> st\<lparr>pending := [], fault := Some err\<rparr>
      | Inr (prev, h) \<Rightarrow> st\<lparr>messages := prev, pending := [], heap := h\<rparr>)"

text \<open>
  Lines 9 to 18: the guard and the synchronous prefix of \<^verbatim>\<open>sendMessage\<close>. The guard
  returns before any state is set, and React has nothing to render.
\<close>

definition sendMessage_chat :: "chat_app \<Rightarrow> chat_app" where
  "sendMessage_chat st =
     (if input st = [] then st
      else
        render_chat
          (st\<lparr>pending := pending st @ [AppendTurn (input st)],
              input := [],
              requests := requests st @ [(''/api/chat-stream'', input st)],
              tasks := tasks st @ [Fetching]\<rparr>))"

fun handle_chat :: "('c \<Rightarrow> string) \<Rightarrow> 'c event \<Rightarrow> chat_app \<Rightarrow> chat_app" where
  "handle_chat decode (SetInput s) st = render_chat (st\<lparr>input := s\<rparr>)"
| "handle_chat decode Click st = sendMessage_chat st"
| "handle_chat decode Render st = render_chat st"
| "handle_chat decode (FetchOk i) st =
     (if task_at st i = Some Fetching
      then st\<lparr>tasks := (tasks st)[i := Reading], aiText := (aiText st)(i := [])\<rparr>
      else st)"
| "handle_chat decode (FetchFail i) st =
     (if task_at st i = Some Fetching then st\<lparr>tasks := (tasks st)[i := Failed]\<rparr> else st)"
| "handle_chat decode (ReadChunk i v) st =
     (if task_at st i = Some Reading
      then st\<lparr>aiText := (aiText st)(i := aiText st i @ decode v),
              pending := pending st @ [WriteLast i]\<rparr>
      else st)"
| "handle_chat decode (ReadDone i) st =
     (if task_at st i = Some Reading then st\<lparr>tasks := (tasks st)[i := Finished]\<rparr> else st)"
| "handle_chat decode (ReadFail i) st =
     (if task_at st i = Some Reading then st\<lparr>tasks := (tasks st)[i := Failed]\<rparr> else st)"

text \<open>An unmounted component receives no further events.\<close>

definition step_chat :: "('c \<Rightarrow> string) \<Rightarrow> 'c event \<Rightarrow> chat_app \<Rightarrow> chat_app" where
  "step_chat decode e st = (if fault st = None then handle_chat decode e st else st)"

definition run_chat :: "('c \<Rightarrow> string) \<Rightarrow> 'c event list \<Rightarrow> chat_app \<Rightarrow> chat_app" where
  "run_chat decode es st = fold (step_chat decode) es st"

section \<open>The whole-response component of 001-vite\<close>

text \<open>
  \<^verbatim>\<open>src/example/001-vite/README.md\<close>, lines 47 to 91. An invocation is suspended at
  \<^verbatim>\<open>await fetch(...)\<close> or at \<^verbatim>\<open>await res.json()\<close>, or it has returned, or it was
  rejected. The event \<open>VJsonOk i reply\<close> delivers a parsed body whose \<^verbatim>\<open>reply\<close> field is
  the string \<open>reply\<close>.
\<close>

datatype vite_task = VFetching | VParsing | VFinished | VFailed

datatype vite_event =
    VSetInput string
  | VClick
  | VFetchOk nat
  | VFetchFail nat
  | VJsonOk nat string
  | VJsonFail nat

type_synonym vite_app = "(message, vite_task) app"

definition init_vite :: vite_app where
  "init_vite = \<lparr>input = [], messages = [], tasks = [], requests = []\<rparr>"

text \<open>Lines 54 to 64: the guard and the synchronous prefix.\<close>

definition sendMessage_vite :: "vite_app \<Rightarrow> vite_app" where
  "sendMessage_vite st =
     (if input st = [] then st
      else
        (let userMsg = \<lparr>role = ''user'', content = input st\<rparr> in
         st\<lparr>messages := messages st @ [userMsg],
            input := [],
            requests := requests st @ [(''/api/chat'', input st)],
            tasks := tasks st @ [VFetching]\<rparr>))"

fun step_vite :: "vite_event \<Rightarrow> vite_app \<Rightarrow> vite_app" where
  "step_vite (VSetInput s) st = st\<lparr>input := s\<rparr>"
| "step_vite VClick st = sendMessage_vite st"
| "step_vite (VFetchOk i) st =
     (if task_at st i = Some VFetching then st\<lparr>tasks := (tasks st)[i := VParsing]\<rparr> else st)"
| "step_vite (VFetchFail i) st =
     (if task_at st i = Some VFetching then st\<lparr>tasks := (tasks st)[i := VFailed]\<rparr> else st)"
| "step_vite (VJsonOk i reply) st =
     (if task_at st i = Some VParsing
      then st\<lparr>messages := messages st @ [\<lparr>role = ''ai'', content = reply\<rparr>],
              tasks := (tasks st)[i := VFinished]\<rparr>
      else st)"
| "step_vite (VJsonFail i) st =
     (if task_at st i = Some VParsing then st\<lparr>tasks := (tasks st)[i := VFailed]\<rparr> else st)"

definition run_vite :: "vite_event list \<Rightarrow> vite_app \<Rightarrow> vite_app" where
  "run_vite es st = fold step_vite es st"

section \<open>Traces and turns\<close>

text \<open>The states after each event of a list, in order.\<close>

fun trace :: "('e \<Rightarrow> 's \<Rightarrow> 's) \<Rightarrow> 'e list \<Rightarrow> 's \<Rightarrow> 's list" where
  "trace f [] st = []"
| "trace f (e # es) st = f e st # trace f es (f e st)"

text \<open>
  One submit that runs to completion with no other event in between: the text is
  entered, the button is clicked, the response arrives, the chunks \<open>cs\<close> are read up to
  the end of the stream, and React renders. The invocation gets the next free task
  index.
\<close>

definition chunk_events :: "nat \<Rightarrow> 'c list \<Rightarrow> 'c event list" where
  "chunk_events i cs = map (ReadChunk i) cs"

definition turn_events :: "nat \<Rightarrow> string \<Rightarrow> 'c list \<Rightarrow> 'c event list" where
  "turn_events i s cs =
     SetInput s # Click # FetchOk i # chunk_events i cs @ [ReadDone i, Render]"

definition vite_turn_events :: "nat \<Rightarrow> string \<Rightarrow> string \<Rightarrow> vite_event list" where
  "vite_turn_events i s reply = [VSetInput s, VClick, VFetchOk i, VJsonOk i reply]"

definition submit_stream :: "('c \<Rightarrow> string) \<Rightarrow> string \<times> 'c list \<Rightarrow> stream_app \<Rightarrow> stream_app" where
  "submit_stream decode t st =
     run_stream decode (turn_events (length (tasks st)) (fst t) (snd t)) st"

definition submit_chat :: "('c \<Rightarrow> string) \<Rightarrow> string \<times> 'c list \<Rightarrow> chat_app \<Rightarrow> chat_app" where
  "submit_chat decode t st =
     run_chat decode (turn_events (length (tasks st)) (fst t) (snd t)) st"

definition submit_vite :: "string \<times> string \<Rightarrow> vite_app \<Rightarrow> vite_app" where
  "submit_vite t st = run_vite (vite_turn_events (length (tasks st)) (fst t) (snd t)) st"

text \<open>
  The chunks of a response as the read loop and React interleave: each list of \<open>bs\<close>
  is read without a render in between, and a render follows it.
\<close>

definition batched_events :: "nat \<Rightarrow> 'c list list \<Rightarrow> 'c event list" where
  "batched_events i bs = concat (map (\<lambda>b. chunk_events i b @ [Render]) bs)"

text \<open>
  The content the last entry shows after each of these events, when it shows \<open>acc\<close>
  before: it stays while a list of chunks is read, and at the render it becomes the
  text read so far.
\<close>

fun shown_contents :: "('c \<Rightarrow> string) \<Rightarrow> string \<Rightarrow> 'c list list \<Rightarrow> string list" where
  "shown_contents decode acc [] = []"
| "shown_contents decode acc (b # bs) =
     replicate (length b) acc @ [acc @ concat (map decode b)] @
     shown_contents decode (acc @ concat (map decode b)) bs"

section \<open>Properties of states\<close>

text \<open>
  The roles alternate \<^verbatim>\<open>"user"\<close>, \<^verbatim>\<open>"ai"\<close>, \<^verbatim>\<open>"user"\<close>, ... from index 0.
\<close>

definition alternates :: "message list \<Rightarrow> bool" where
  "alternates ms = (map role ms = map (\<lambda>i. if even i then ''user'' else ''ai'') [0..<length ms])"

fun is_write :: "updater \<Rightarrow> bool" where
  "is_write (WriteLast i) = True"
| "is_write (AppendTurn s) = False"

text \<open>
  A store and an array of addresses into it: every address is allocated, no object is
  in the array twice, the entries come in pairs and the roles alternate.
\<close>

definition good_store :: "nat list \<times> message list \<Rightarrow> bool" where
  "good_store x =
     (distinct (fst x) \<and> list_all (\<lambda>a. a < length (snd x)) (fst x) \<and>
      even (length (fst x)) \<and> alternates (map (\<lambda>a. snd x ! a) (fst x)))"

text \<open>
  The states the store-based component can be in between two events: it is mounted,
  the store is good, every invocation has put its two messages into the array, and the
  queue holds functions of the read loop only, none while the array is empty.
\<close>

definition wf_chat :: "chat_app \<Rightarrow> bool" where
  "wf_chat st =
     (fault st = None \<and> good_store (messages st, heap st) \<and>
      length (messages st) = 2 * length (tasks st) \<and>
      list_all is_write (pending st) \<and> (pending st = [] \<or> messages st \<noteq> []))"

definition inv_stream :: "stream_app \<Rightarrow> bool" where
  "inv_stream st =
     (length (messages st) = 2 * length (tasks st) \<and> alternates (messages st) \<and>
      list_all is_write (pending st))"

text \<open>
  The store-based state as the by-value component would hold it: the array with its
  objects read from the store.
\<close>

definition view :: "chat_app \<Rightarrow> stream_app" where
  "view st =
     \<lparr>input = input st, messages = transcript st, tasks = tasks st, requests = requests st,
      aiText = aiText st, pending = pending st\<rparr>"

text \<open>
  No click of a list of events finds the input field empty, given the field's value
  before the first event. The guard of the store-based component then never fires.
\<close>

fun clicks_nonempty :: "'c event list \<Rightarrow> string \<Rightarrow> bool" where
  "clicks_nonempty [] inp = True"
| "clicks_nonempty (SetInput s # es) inp = clicks_nonempty es s"
| "clicks_nonempty (Click # es) inp = (inp \<noteq> [] \<and> clicks_nonempty es [])"
| "clicks_nonempty (e # es) inp = clicks_nonempty es inp"

text \<open>The invocation an event is delivered to.\<close>

fun event_task :: "'c event \<Rightarrow> nat option" where
  "event_task (SetInput s) = None"
| "event_task Click = None"
| "event_task Render = None"
| "event_task (FetchOk i) = Some i"
| "event_task (FetchFail i) = Some i"
| "event_task (ReadChunk i v) = Some i"
| "event_task (ReadDone i) = Some i"
| "event_task (ReadFail i) = Some i"

fun vite_event_task :: "vite_event \<Rightarrow> nat option" where
  "vite_event_task (VSetInput s) = None"
| "vite_event_task VClick = None"
| "vite_event_task (VFetchOk i) = Some i"
| "vite_event_task (VFetchFail i) = Some i"
| "vite_event_task (VJsonOk i r) = Some i"
| "vite_event_task (VJsonFail i) = Some i"

text \<open>A string of white space only: spaces, tabs, line feeds, vertical tabs, form feeds, carriage returns.\<close>

definition blank :: "string \<Rightarrow> bool" where
  "blank s = list_all (\<lambda>c. c \<in> set [CHR '' '', CHR 0x09, CHR 0x0A, CHR 0x0B, CHR 0x0C, CHR 0x0D]) s"

text \<open>
  What a state update may do to the transcript \<open>t\<close>: put entries after it, or keep its
  length, its entries but the last, and the role of the last.
\<close>

definition changes_last_only :: "message list \<Rightarrow> message list \<Rightarrow> bool" where
  "changes_last_only t t' =
     (take (length t) t' = t \<or>
      (t \<noteq> [] \<and> length t' = length t \<and> butlast t' = butlast t \<and>
       role (last t') = role (last t)))"

text \<open>
  The events of an invocation \<open>i\<close> that fails: either \<^verbatim>\<open>fetch\<close> is rejected, or the
  response arrives, the chunks \<open>cs\<close> are read, the next \<^verbatim>\<open>reader.read()\<close> is rejected and
  React renders what the loop had queued. In the whole-response component either
  \<^verbatim>\<open>fetch\<close> or \<^verbatim>\<open>res.json()\<close> is rejected.
\<close>

fun failing_events :: "nat \<Rightarrow> 'c list option \<Rightarrow> 'c event list" where
  "failing_events i None = [FetchFail i]"
| "failing_events i (Some cs) = FetchOk i # chunk_events i cs @ [ReadFail i, Render]"

fun vite_failing_events :: "nat \<Rightarrow> bool \<Rightarrow> vite_event list" where
  "vite_failing_events i True = [VFetchFail i]"
| "vite_failing_events i False = [VFetchOk i, VJsonFail i]"

section \<open>Runs, traces and lists\<close>

lemma run_stream_Nil [simp]: "run_stream decode [] st = st"
  by (simp add: run_stream_def)

lemma run_stream_Cons [simp]:
  "run_stream decode (e # es) st = run_stream decode es (step_stream decode e st)"
  by (simp add: run_stream_def)

lemma run_stream_append:
  "run_stream decode (es @ es') st = run_stream decode es' (run_stream decode es st)"
  by (simp add: run_stream_def)

lemma run_chat_Nil [simp]: "run_chat decode [] st = st"
  by (simp add: run_chat_def)

lemma run_chat_Cons [simp]:
  "run_chat decode (e # es) st = run_chat decode es (step_chat decode e st)"
  by (simp add: run_chat_def)

lemma run_chat_append:
  "run_chat decode (es @ es') st = run_chat decode es' (run_chat decode es st)"
  by (simp add: run_chat_def)

lemma run_vite_Nil [simp]: "run_vite [] st = st"
  by (simp add: run_vite_def)

lemma run_vite_Cons [simp]: "run_vite (e # es) st = run_vite es (step_vite e st)"
  by (simp add: run_vite_def)

lemma run_vite_append: "run_vite (es @ es') st = run_vite es' (run_vite es st)"
  by (simp add: run_vite_def)

lemma trace_append:
  "trace f (es @ es') st = trace f es st @ trace f es' (fold f es st)"
  by (induction es arbitrary: st) simp_all

lemma length_trace [simp]: "length (trace f es st) = length es"
  by (induction es arbitrary: st) simp_all

lemma trace_nth:
  "k < length es \<Longrightarrow> trace f es st ! k = fold f (take (Suc k) es) st"
proof (induction es arbitrary: st k)
  case Nil
  then show ?case by simp
next
  case (Cons e es)
  then show ?case by (cases k) simp_all
qed

lemma map_nth_update_last:
  assumes "distinct refs" and "refs \<noteq> []"
  shows "map ((!) (h[refs ! (length refs - 1) := v])) refs
         = (map ((!) h) refs)[length refs - 1 := (h[refs ! (length refs - 1) := v]) ! (refs ! (length refs - 1))]"
proof (rule nth_equalityI)
  show "length (map ((!) (h[refs ! (length refs - 1) := v])) refs) =
        length ((map ((!) h) refs)[length refs - 1 := (h[refs ! (length refs - 1) := v]) ! (refs ! (length refs - 1))])"
    by simp
next
  fix j assume "j < length (map ((!) (h[refs ! (length refs - 1) := v])) refs)"
  then have j: "j < length refs" by simp
  show "map ((!) (h[refs ! (length refs - 1) := v])) refs ! j =
        (map ((!) h) refs)[length refs - 1 := (h[refs ! (length refs - 1) := v]) ! (refs ! (length refs - 1))] ! j"
  proof (cases "j = length refs - 1")
    case True
    with j show ?thesis by simp
  next
    case False
    with j assms have "refs ! j \<noteq> refs ! (length refs - 1)"
      by (simp add: nth_eq_iff_index_eq)
    with j False show ?thesis by simp
  qed
qed

lemma alternates_nth:
  "alternates ms \<longleftrightarrow> (\<forall>i<length ms. role (ms ! i) = (if even i then ''user'' else ''ai''))"
proof -
  have "alternates ms \<longleftrightarrow>
      (\<forall>i<length ms. map role ms ! i = map (\<lambda>i. if even i then ''user'' else ''ai'') [0..<length ms] ! i)"
    unfolding alternates_def by (subst list_eq_iff_nth_eq) simp
  then show ?thesis by simp
qed

lemma alternates_Nil [simp]: "alternates []"
  by (simp add: alternates_def)

lemma alternates_append_turn:
  assumes "alternates ms" and "even (length ms)" and "role u = ''user''" and "role a = ''ai''"
  shows "alternates (ms @ [u, a])"
  unfolding alternates_nth
proof (intro allI impI)
  fix i assume "i < length (ms @ [u, a])"
  then consider "i < length ms" | "i = length ms" | "i = Suc (length ms)"
    by (auto simp: less_Suc_eq)
  then show "role ((ms @ [u, a]) ! i) = (if even i then ''user'' else ''ai'')"
  proof cases
    case 1
    with assms(1) show ?thesis by (simp add: alternates_nth nth_append)
  next
    case 2
    with assms show ?thesis by (simp add: nth_append)
  next
    case 3
    with assms show ?thesis by (simp add: nth_append)
  qed
qed

lemma alternates_update:
  assumes "alternates ms" and "k < length ms" and "role v = role (ms ! k)"
  shows "alternates (ms[k := v])"
  using assms by (auto simp: alternates_nth nth_list_update)

lemma alternates_last_ai:
  assumes "alternates ms" and "even (length ms)" and "ms \<noteq> []"
  shows "role (ms ! (length ms - 1)) = ''ai''"
proof -
  from assms(3) have "length ms - 1 < length ms" by simp
  moreover from assms(2,3) have "odd (length ms - 1)" by (cases ms) simp_all
  ultimately show ?thesis using assms(1) by (simp add: alternates_nth)
qed

lemma transcript_alloc:
  assumes "list_all (\<lambda>a. a < length h) refs"
  shows "map ((!) (h @ [u, a])) (refs @ [length h, Suc (length h)]) = map ((!) h) refs @ [u, a]"
  using assms by (simp add: list_all_iff nth_append)

lemma task_at_Some: "task_at st i = Some t \<longleftrightarrow> i < length (tasks st) \<and> tasks st ! i = t"
  by (auto simp: task_at_def)

lemma replaceLast_length [simp]: "length (replaceLast x ms) = length ms"
  by (simp add: replaceLast_def)

lemma replaceLast_alt:
  assumes "alternates ms" and "even (length ms)"
  shows "replaceLast x ms =
     (if ms = [] then ms else ms[length ms - 1 := (ms ! (length ms - 1))\<lparr>content := x\<rparr>])"
proof (cases "ms = []")
  case True
  then show ?thesis by (simp add: replaceLast_def)
next
  case False
  from alternates_last_ai [OF assms False]
  have "(ms ! (length ms - 1))\<lparr>content := x\<rparr> = \<lparr>role = ''ai'', content = x\<rparr>"
    by (cases "ms ! (length ms - 1)") simp
  with False show ?thesis by (simp add: replaceLast_def)
qed

lemma replaceLast_alternates:
  assumes "alternates ms" and "even (length ms)"
  shows "alternates (replaceLast x ms)"
proof (cases "ms = []")
  case True
  then show ?thesis by (simp add: replaceLast_def)
next
  case False
  then have "length ms - 1 < length ms" by simp
  with replaceLast_alt [OF assms, of x] False assms(1) show ?thesis
    by (simp add: alternates_update)
qed

lemma task_at_updates [simp]:
  "task_at (st\<lparr>aiText := f\<rparr>) i = task_at st i"
  "task_at (st\<lparr>pending := q\<rparr>) i = task_at st i"
  "task_at (st\<lparr>input := s\<rparr>) i = task_at st i"
  "task_at (st\<lparr>messages := ms\<rparr>) i = task_at st i"
  "task_at (st\<lparr>requests := rs\<rparr>) i = task_at st i"
  by (simp_all add: task_at_def)

lemma task_at_new:
  "task_at (st\<lparr>tasks := tasks st @ [t]\<rparr>) (length (tasks st)) = Some t"
  "i < length (tasks st) \<Longrightarrow> task_at (st\<lparr>tasks := (tasks st)[i := t]\<rparr>) i = Some t"
  by (simp_all add: task_at_def)

section \<open>Calling the queued functions\<close>

lemma call_stream_paired:
  assumes "alternates prev \<and> even (length prev)"
  shows "alternates (call_stream txt u prev) \<and> even (length (call_stream txt u prev))"
proof (cases u)
  case (AppendTurn s)
  with assms show ?thesis by (simp add: alternates_append_turn)
next
  case (WriteLast i)
  with assms show ?thesis by (simp add: replaceLast_alternates)
qed

lemma fold_call_stream_paired:
  assumes "alternates prev \<and> even (length prev)"
  shows "alternates (fold (call_stream txt) q prev) \<and> even (length (fold (call_stream txt) q prev))"
  using assms by (induction q arbitrary: prev) (simp_all add: call_stream_paired)

lemma fold_writes_length:
  assumes "list_all is_write q"
  shows "length (fold (call_stream txt) q prev) = length prev"
  using assms
proof (induction q arbitrary: prev)
  case Nil
  then show ?case by simp
next
  case (Cons u q)
  then show ?case by (cases u) simp_all
qed

text \<open>
  Functions of the read loop, called one after the other, leave the last one's text in
  the last element.
\<close>

lemma fold_writes:
  assumes "list_all is_write q" and "q \<noteq> []"
  shows "fold (call_stream txt) q (pre @ [m]) =
         pre @ [\<lparr>role = ''ai'', content = txt (case last q of WriteLast i \<Rightarrow> i | AppendTurn s \<Rightarrow> 0)\<rparr>]"
  using assms
proof (induction q arbitrary: m)
  case Nil
  then show ?case by simp
next
  case (Cons u q)
  then obtain i where u: "u = WriteLast i" by (cases u) simp_all
  show ?case
  proof (cases "q = []")
    case True
    with u show ?thesis by (simp add: replaceLast_def)
  next
    case False
    with Cons u show ?thesis by (simp add: replaceLast_def)
  qed
qed

lemma fold_replicate_write:
  "fold (call_stream txt) (replicate n (WriteLast i)) (pre @ [m]) =
     pre @ [if n = 0 then m else \<lparr>role = ''ai'', content = txt i\<rparr>]"
proof (cases n)
  case 0
  then show ?thesis by simp
next
  case (Suc k)
  then have "replicate n (WriteLast i) \<noteq> []" "list_all is_write (replicate n (WriteLast i))"
    "last (replicate n (WriteLast i)) = WriteLast i"
    by (simp_all add: list_all_iff)
  with fold_writes [of "replicate n (WriteLast i)" "txt" pre m] Suc show ?thesis by simp
qed

section \<open>The object store\<close>

lemma good_store_init: "good_store ([], [])"
  by (simp add: good_store_def)

lemma call_chat_append:
  assumes "good_store (refs, h)"
  shows "good_store (refs @ [length h, Suc (length h)],
           h @ [\<lparr>role = ''user'', content = s\<rparr>, \<lparr>role = ''ai'', content = []\<rparr>])"
    and "map ((!) (h @ [\<lparr>role = ''user'', content = s\<rparr>, \<lparr>role = ''ai'', content = []\<rparr>]))
           (refs @ [length h, Suc (length h)]) =
         map ((!) h) refs @ [\<lparr>role = ''user'', content = s\<rparr>, \<lparr>role = ''ai'', content = []\<rparr>]"
proof -
  from assms have refs: "list_all (\<lambda>a. a < length h) refs" and dist: "distinct refs"
    and ev: "even (length refs)" and alt: "alternates (map ((!) h) refs)"
    by (simp_all add: good_store_def)
  show tr: "map ((!) (h @ [\<lparr>role = ''user'', content = s\<rparr>, \<lparr>role = ''ai'', content = []\<rparr>]))
           (refs @ [length h, Suc (length h)]) =
         map ((!) h) refs @ [\<lparr>role = ''user'', content = s\<rparr>, \<lparr>role = ''ai'', content = []\<rparr>]"
    by (rule transcript_alloc [OF refs])
  have "alternates (map ((!) h) refs @ [\<lparr>role = ''user'', content = s\<rparr>, \<lparr>role = ''ai'', content = []\<rparr>])"
    using alt ev by (intro alternates_append_turn) simp_all
  then have "alternates (map ((!) (h @ [\<lparr>role = ''user'', content = s\<rparr>, \<lparr>role = ''ai'', content = []\<rparr>]))
           (refs @ [length h, Suc (length h)]))"
    by (simp only: tr)
  moreover have "distinct (refs @ [length h, Suc (length h)])"
    using refs dist by (auto simp: list_all_iff)
  moreover have "list_all (\<lambda>a. a < length (h @ [\<lparr>role = ''user'', content = s\<rparr>,
      \<lparr>role = ''ai'', content = []\<rparr>])) (refs @ [length h, Suc (length h)])"
    using refs by (auto simp: list_all_iff)
  ultimately show "good_store (refs @ [length h, Suc (length h)],
           h @ [\<lparr>role = ''user'', content = s\<rparr>, \<lparr>role = ''ai'', content = []\<rparr>])"
    using ev unfolding good_store_def fst_conv snd_conv by simp
qed

lemma call_chat_write:
  assumes "good_store (refs, h)" and "refs \<noteq> []"
  shows "\<exists>h'. setLastContent x refs h = Inr h' \<and> good_store (refs, h') \<and>
           map ((!) h') refs = replaceLast x (map ((!) h) refs)"
proof -
  let ?a = "refs ! (length refs - 1)"
  let ?h' = "h[?a := (h ! ?a)\<lparr>content := x\<rparr>]"
  let ?t = "map ((!) h) refs"
  from assms(1) have refs: "list_all (\<lambda>a. a < length h) refs" and dist: "distinct refs"
    and ev: "even (length refs)" and alt: "alternates ?t"
    by (simp_all add: good_store_def)
  from assms(2) have "?a \<in> set refs" by simp
  with refs have a: "?a < length h" by (simp add: list_all_iff)
  have sl: "setLastContent x refs h = Inr ?h'"
    using assms(2) by (simp add: setLastContent_def Let_def)
  have "map ((!) ?h') refs = ?t[length ?t - 1 := (?t ! (length ?t - 1))\<lparr>content := x\<rparr>]"
    using map_nth_update_last [OF dist assms(2), of h "(h ! ?a)\<lparr>content := x\<rparr>"] a assms(2)
    by simp
  moreover have "replaceLast x ?t = ?t[length ?t - 1 := (?t ! (length ?t - 1))\<lparr>content := x\<rparr>]"
    using replaceLast_alt [of ?t x] alt ev assms(2) by simp
  ultimately have tr: "map ((!) ?h') refs = replaceLast x ?t" by simp
  have "alternates (replaceLast x ?t)"
    using alt ev by (intro replaceLast_alternates) simp_all
  with tr refs dist ev have "good_store (refs, ?h')" by (simp add: good_store_def)
  with sl tr show ?thesis by blast
qed

text \<open>
  On a good store a queued function does to the objects what its by-value
  counterpart does to the messages, and does not throw, unless it is to write the last
  element of an empty array.
\<close>

lemma call_chat_ok:
  assumes "good_store (refs, h)" and "is_write u \<longrightarrow> refs \<noteq> []"
  shows "\<exists>refs' h'. call_chat txt u (refs, h) = Inr (refs', h') \<and> good_store (refs', h') \<and>
           map ((!) h') refs' = call_stream txt u (map ((!) h) refs) \<and>
           (refs \<noteq> [] \<longrightarrow> refs' \<noteq> []) \<and> (\<not> is_write u \<longrightarrow> refs' \<noteq> [])"
proof (cases u)
  case (AppendTurn s)
  with call_chat_append [OF assms(1), of s] show ?thesis by simp
next
  case (WriteLast i)
  with assms(2) have ne: "refs \<noteq> []" by simp
  from call_chat_write [OF assms(1) ne, of "txt i"] WriteLast ne show ?thesis by auto
qed

lemma call_all_ok:
  assumes "good_store (refs, h)" and "refs \<noteq> [] \<or> q = [] \<or> \<not> is_write (hd q)"
  shows "\<exists>refs' h'. call_all txt q (refs, h) = Inr (refs', h') \<and> good_store (refs', h') \<and>
           map ((!) h') refs' = fold (call_stream txt) q (map ((!) h) refs) \<and>
           (refs \<noteq> [] \<longrightarrow> refs' \<noteq> [])"
  using assms
proof (induction q arbitrary: refs h)
  case Nil
  then show ?case by simp
next
  case (Cons u q)
  from Cons.prems(2) have "is_write u \<longrightarrow> refs \<noteq> []" by auto
  from call_chat_ok [OF Cons.prems(1) this, of "txt"] obtain refs1 h1 where
    c: "call_chat txt u (refs, h) = Inr (refs1, h1)" and g: "good_store (refs1, h1)"
    and m: "map ((!) h1) refs1 = call_stream txt u (map ((!) h) refs)"
    and ne: "refs \<noteq> [] \<longrightarrow> refs1 \<noteq> []" "\<not> is_write u \<longrightarrow> refs1 \<noteq> []"
    by blast
  from Cons.prems(2) ne have "refs1 \<noteq> []" by auto
  then have "refs1 \<noteq> [] \<or> q = [] \<or> \<not> is_write (hd q)" by simp
  from Cons.IH [OF g this] obtain refs' h' where
    "call_all txt q (refs1, h1) = Inr (refs', h')" "good_store (refs', h')"
    "map ((!) h') refs' = fold (call_stream txt) q (map ((!) h1) refs1)" "refs' \<noteq> []"
    using \<open>refs1 \<noteq> []\<close> by blast
  with c m show ?case by simp
qed

section \<open>Rendering\<close>

lemma render_stream_simps [simp]:
  "pending (render_stream st) = []"
  "input (render_stream st) = input st"
  "tasks (render_stream st) = tasks st"
  "requests (render_stream st) = requests st"
  "aiText (render_stream st) = aiText st"
  "messages (render_stream st) = fold (call_stream (aiText st)) (pending st) (messages st)"
  by (simp_all add: render_stream_def)

lemma render_stream_idle: "pending st = [] \<Longrightarrow> render_stream st = st"
  by (simp add: render_stream_def)

lemma task_at_render_stream [simp]: "task_at (render_stream st) i = task_at st i"
  by (simp add: task_at_def)

lemma inv_stream_init: "inv_stream init_stream"
  by (simp add: inv_stream_def init_stream_def)

lemma inv_stream_render:
  assumes "inv_stream st"
  shows "inv_stream (render_stream st)"
proof -
  from assms have len: "length (messages st) = 2 * length (tasks st)"
    and alt: "alternates (messages st)" and w: "list_all is_write (pending st)"
    by (simp_all add: inv_stream_def)
  from len have "alternates (messages st) \<and> even (length (messages st))" using alt by simp
  from fold_call_stream_paired [OF this, of "aiText st" "pending st"] fold_writes_length [OF w, of "aiText st" "messages st"] len
  show ?thesis by (simp add: inv_stream_def)
qed

lemma inv_stream_step:
  assumes "inv_stream st"
  shows "inv_stream (step_stream decode e st)"
proof (cases e)
  case (SetInput s)
  from assms have "inv_stream (st\<lparr>input := s\<rparr>)" by (simp add: inv_stream_def)
  with SetInput show ?thesis by (simp add: inv_stream_render)
next
  case Click
  let ?st = "st\<lparr>pending := pending st @ [AppendTurn (input st)], input := [],
      requests := requests st @ [(''/api/chat-stream'', input st)], tasks := tasks st @ [Fetching]\<rparr>"
  from assms have len: "length (messages st) = 2 * length (tasks st)"
    and alt: "alternates (messages st)" and w: "list_all is_write (pending st)"
    by (simp_all add: inv_stream_def)
  from len have p: "alternates (messages st) \<and> even (length (messages st))" using alt by simp
  have m: "messages (render_stream ?st) =
      fold (call_stream (aiText st)) (pending st) (messages st) @
        [\<lparr>role = ''user'', content = input st\<rparr>, \<lparr>role = ''ai'', content = []\<rparr>]"
    by simp
  from fold_call_stream_paired [OF p, of "aiText st" "pending st @ [AppendTurn (input st)]"]
  have "alternates (messages (render_stream ?st))" by simp
  moreover have "length (messages (render_stream ?st)) = 2 * length (tasks (render_stream ?st))"
    using fold_writes_length [OF w, of "aiText st" "messages st"] len by simp
  ultimately show ?thesis using Click by (simp add: inv_stream_def sendMessage_stream_def)
next
  case Render
  with assms show ?thesis by (simp add: inv_stream_render)
next
  case (FetchOk i)
  with assms show ?thesis by (simp add: inv_stream_def)
next
  case (FetchFail i)
  with assms show ?thesis by (simp add: inv_stream_def)
next
  case (ReadChunk i v)
  with assms show ?thesis by (simp add: inv_stream_def)
next
  case (ReadDone i)
  with assms show ?thesis by (simp add: inv_stream_def)
next
  case (ReadFail i)
  with assms show ?thesis by (simp add: inv_stream_def)
qed

lemma inv_stream_run: "inv_stream st \<Longrightarrow> inv_stream (run_stream decode es st)"
  by (induction es arbitrary: st) (simp_all add: inv_stream_step)

lemma inv_stream_reachable: "inv_stream (run_stream decode es init_stream)"
  by (simp add: inv_stream_run inv_stream_init)

section \<open>The store-based component through its view\<close>

lemma view_simps [simp]:
  "input (view c) = input c" "messages (view c) = transcript c"
  "tasks (view c) = tasks c" "requests (view c) = requests c"
  "aiText (view c) = aiText c" "pending (view c) = pending c"
  by (simp_all add: view_def)

lemma task_at_view [simp]: "task_at (view c) i = task_at c i"
  by (simp add: task_at_def)

lemma wf_chat_init: "wf_chat init_chat"
  by (simp add: wf_chat_def init_chat_def good_store_def)

lemma wf_chat_view:
  assumes "wf_chat c"
  shows "inv_stream (view c)"
  using assms by (simp add: wf_chat_def inv_stream_def good_store_def transcript_def)

text \<open>A render of the store-based component, on a good store whose queue is safe to call.\<close>

lemma render_chat_ok:
  assumes g: "good_store (messages c, heap c)"
    and safe: "messages c \<noteq> [] \<or> pending c = [] \<or> \<not> is_write (hd (pending c))"
  shows "view (render_chat c) = render_stream (view c)"
    and "good_store (messages (render_chat c), heap (render_chat c))"
    and "fault (render_chat c) = fault c"
    and "messages c \<noteq> [] \<longrightarrow> messages (render_chat c) \<noteq> []"
proof -
  from call_all_ok [OF g safe, of "aiText c"] obtain refs' h' where
    c: "call_all (aiText c) (pending c) (messages c, heap c) = Inr (refs', h')"
    and g': "good_store (refs', h')"
    and m: "map ((!) h') refs' = fold (call_stream (aiText c)) (pending c) (map ((!) (heap c)) (messages c))"
    and ne: "messages c \<noteq> [] \<longrightarrow> refs' \<noteq> []"
    by blast
  from c have r: "render_chat c = c\<lparr>messages := refs', pending := [], heap := h'\<rparr>"
    by (simp add: render_chat_def)
  show "view (render_chat c) = render_stream (view c)"
    unfolding r using m by (simp add: view_def render_stream_def transcript_def)
  show "good_store (messages (render_chat c), heap (render_chat c))"
    unfolding r using g' by simp
  show "fault (render_chat c) = fault c" unfolding r by simp
  show "messages c \<noteq> [] \<longrightarrow> messages (render_chat c) \<noteq> []"
    unfolding r using ne by simp
qed

lemma wf_chat_safe:
  assumes "wf_chat c"
  shows "good_store (messages c, heap c)"
    and "messages c \<noteq> [] \<or> pending c = [] \<or> \<not> is_write (hd (pending c))"
  using assms by (auto simp: wf_chat_def)

lemma wf_chatI:
  assumes "fault c = None" and "good_store (messages c, heap c)" and "inv_stream (view c)"
    and "pending c = [] \<or> messages c \<noteq> []"
  shows "wf_chat c"
  using assms by (simp add: wf_chat_def inv_stream_def transcript_def)

text \<open>
  One event of the store-based component, when the guard does not fire, is the event
  of the by-value component on the view.
\<close>

lemma chat_step:
  assumes wf: "wf_chat c" and guard: "e = Click \<longrightarrow> input c \<noteq> []"
  shows "view (step_chat decode e c) = step_stream decode e (view c)"
    and "wf_chat (step_chat decode e c)"
proof -
  from wf have nf: "fault c = None" and g: "good_store (messages c, heap c)"
    and len: "length (messages c) = 2 * length (tasks c)"
    and w: "list_all is_write (pending c)" and pe: "pending c = [] \<or> messages c \<noteq> []"
    by (simp_all add: wf_chat_def)
  have inv: "inv_stream (step_stream decode e (view c))"
    by (rule inv_stream_step [OF wf_chat_view [OF wf]])
  have "view (step_chat decode e c) = step_stream decode e (view c) \<and>
        good_store (messages (step_chat decode e c), heap (step_chat decode e c)) \<and>
        fault (step_chat decode e c) = None \<and>
        (pending (step_chat decode e c) = [] \<or> messages (step_chat decode e c) \<noteq> [])"
  proof (cases e)
    case (SetInput s)
    let ?c = "c\<lparr>input := s\<rparr>"
    have "good_store (messages ?c, heap ?c)" using g by simp
    moreover have "messages ?c \<noteq> [] \<or> pending ?c = [] \<or> \<not> is_write (hd (pending ?c))"
      using pe by auto
    ultimately have r: "view (render_chat ?c) = render_stream (view ?c)"
      "good_store (messages (render_chat ?c), heap (render_chat ?c))"
      "fault (render_chat ?c) = fault ?c"
      by (rule render_chat_ok)+
    have "view ?c = (view c)\<lparr>input := s\<rparr>" by (simp add: view_def transcript_def)
    moreover have "pending (render_chat ?c) = []"
      using r(1) by (metis render_stream_simps(1) view_simps(6))
    ultimately show ?thesis using SetInput nf r by (simp add: step_chat_def)
  next
    case Click
    with guard have ne: "input c \<noteq> []" by simp
    let ?c = "c\<lparr>pending := pending c @ [AppendTurn (input c)], input := [],
      requests := requests c @ [(''/api/chat-stream'', input c)], tasks := tasks c @ [Fetching]\<rparr>"
    have "good_store (messages ?c, heap ?c)" using g by simp
    moreover have safe: "messages ?c \<noteq> [] \<or> pending ?c = [] \<or> \<not> is_write (hd (pending ?c))"
      using pe by (cases "pending c") auto
    ultimately have r: "view (render_chat ?c) = render_stream (view ?c)"
      "good_store (messages (render_chat ?c), heap (render_chat ?c))"
      "fault (render_chat ?c) = fault ?c"
      by (rule render_chat_ok)+
    have v: "view ?c = (view c)\<lparr>pending := pending (view c) @ [AppendTurn (input (view c))], input := [],
      requests := requests (view c) @ [(''/api/chat-stream'', input (view c))],
      tasks := tasks (view c) @ [Fetching]\<rparr>"
      by (simp add: view_def transcript_def)
    have "pending (render_chat ?c) = []"
      using r(1) by (metis render_stream_simps(1) view_simps(6))
    then show ?thesis using Click nf ne r v
      by (simp add: step_chat_def sendMessage_chat_def sendMessage_stream_def)
  next
    case Render
    from render_chat_ok [OF wf_chat_safe [OF wf]]
    have r: "view (render_chat c) = render_stream (view c)"
      "good_store (messages (render_chat c), heap (render_chat c))"
      "fault (render_chat c) = fault c"
      by simp_all
    have "pending (render_chat c) = []"
      using r(1) by (metis render_stream_simps(1) view_simps(6))
    then show ?thesis using Render nf r by (simp add: step_chat_def)
  next
    case (FetchOk i)
    with nf g pe show ?thesis by (simp add: step_chat_def view_def transcript_def task_at_def)
  next
    case (FetchFail i)
    with nf g pe show ?thesis by (simp add: step_chat_def view_def transcript_def task_at_def)
  next
    case (ReadChunk i v)
    show ?thesis
    proof (cases "task_at c i = Some Reading")
      case True
      then have "tasks c \<noteq> []" by (auto simp: task_at_Some)
      with len have "messages c \<noteq> []" by auto
      with True ReadChunk nf g show ?thesis
        by (auto simp: step_chat_def view_def transcript_def task_at_def split: if_splits)
    next
      case False
      with ReadChunk nf g pe show ?thesis by (simp add: step_chat_def)
    qed
  next
    case (ReadDone i)
    with nf g pe show ?thesis by (simp add: step_chat_def view_def transcript_def task_at_def)
  next
    case (ReadFail i)
    with nf g pe show ?thesis by (simp add: step_chat_def view_def transcript_def task_at_def)
  qed
  then show "view (step_chat decode e c) = step_stream decode e (view c)"
    and "wf_chat (step_chat decode e c)"
    using inv by (simp_all add: wf_chatI)
qed

lemma wf_chat_step:
  assumes "wf_chat c"
  shows "wf_chat (step_chat decode e c)"
proof (cases "e = Click \<and> input c = []")
  case True
  then have "step_chat decode e c = c" by (simp add: step_chat_def sendMessage_chat_def)
  with assms show ?thesis by simp
next
  case False
  then have "e = Click \<longrightarrow> input c \<noteq> []" by simp
  from chat_step(2) [OF assms this] show ?thesis .
qed

lemma wf_chat_run: "wf_chat st \<Longrightarrow> wf_chat (run_chat decode es st)"
  by (induction es arbitrary: st) (simp_all add: wf_chat_step)

lemma wf_chat_reachable: "wf_chat (run_chat decode es init_chat)"
  by (simp add: wf_chat_run wf_chat_init)

lemma view_init: "view init_chat = init_stream"
  by (simp add: view_def init_chat_def init_stream_def transcript_def)

lemma clicks_nonempty_step:
  assumes "clicks_nonempty (e # es) (input st)"
  shows "clicks_nonempty es (input (step_stream decode e st))"
  using assms by (cases e) (auto simp: sendMessage_stream_def)

text \<open>
  Transfer: on a well-formed state, a run in which the guard never fires is the run of
  the by-value component on the view.
\<close>

lemma view_run:
  assumes "wf_chat c" and "clicks_nonempty es (input c)"
  shows "view (run_chat decode es c) = run_stream decode es (view c) \<and>
         map transcript (trace (step_chat decode) es c) =
         map messages (trace (step_stream decode) es (view c))"
  using assms
proof (induction es arbitrary: c)
  case Nil
  then show ?case by simp
next
  case (Cons e es)
  have g: "e = Click \<longrightarrow> input c \<noteq> []"
    using Cons.prems(2) by (cases e) simp_all
  note s = chat_step [OF Cons.prems(1) g, of decode]
  have "clicks_nonempty es (input (step_stream decode e (view c)))"
    using clicks_nonempty_step [of e es "view c" decode] Cons.prems(2) by simp
  then have "clicks_nonempty es (input (step_chat decode e c))"
    using s(1) by (metis view_simps(1))
  from Cons.IH [OF s(2) this] s(1) show ?case
    by simp (metis view_simps(2))
qed

section \<open>A submit of the by-value component\<close>

lemma stream_read_chunks:
  assumes "task_at st i = Some Reading"
  shows "run_stream decode (chunk_events i b) st =
         st\<lparr>aiText := (aiText st)(i := aiText st i @ concat (map decode b)),
            pending := pending st @ replicate (length b) (WriteLast i)\<rparr>"
  using assms
proof (induction b arbitrary: st)
  case Nil
  then show ?case by (simp add: chunk_events_def)
next
  case (Cons c b)
  let ?st = "st\<lparr>aiText := (aiText st)(i := aiText st i @ decode c),
                 pending := pending st @ [WriteLast i]\<rparr>"
  from Cons.prems have s: "step_stream decode (ReadChunk i c) st = ?st" by simp
  from Cons.prems have "task_at ?st i = Some Reading" by simp
  then have 2: "run_stream decode (chunk_events i b) ?st =
      ?st\<lparr>aiText := (aiText ?st)(i := aiText ?st i @ concat (map decode b)),
          pending := pending ?st @ replicate (length b) (WriteLast i)\<rparr>"
    by (rule Cons.IH)
  have 1: "run_stream decode (chunk_events i (c # b)) st = run_stream decode (chunk_events i b) ?st"
    using s by (simp add: chunk_events_def)
  have 3: "?st\<lparr>aiText := (aiText ?st)(i := aiText ?st i @ concat (map decode b)),
          pending := pending ?st @ replicate (length b) (WriteLast i)\<rparr> =
      st\<lparr>aiText := (aiText st)(i := aiText st i @ concat (map decode (c # b))),
         pending := pending st @ replicate (length (c # b)) (WriteLast i)\<rparr>"
    by (rule streaming.equality) (simp_all add: fun_eq_iff)
  from 1 2 3 show ?case by (simp only:)
qed

text \<open>The state in which the read loop of a fresh invocation starts.\<close>

lemma stream_begin:
  fixes st :: stream_app and decode :: "'c \<Rightarrow> string" and s :: string
  defines "st' \<equiv> run_stream decode [SetInput s, Click, FetchOk (length (tasks st))] st"
  shows "messages st' = messages (render_stream st) @
           [\<lparr>role = ''user'', content = s\<rparr>, \<lparr>role = ''ai'', content = []\<rparr>]"
    and "tasks st' = tasks st @ [Reading]"
    and "input st' = []"
    and "requests st' = requests st @ [(''/api/chat-stream'', s)]"
    and "pending st' = []"
    and "aiText st' = (aiText st)(length (tasks st) := [])"
  by (simp_all add: st'_def sendMessage_stream_def task_at_def)

lemma stream_click:
  "messages (run_stream decode [SetInput s, Click] st) = messages (render_stream st) @
           [\<lparr>role = ''user'', content = s\<rparr>, \<lparr>role = ''ai'', content = []\<rparr>]"
  "tasks (run_stream decode [SetInput s, Click] st) = tasks st @ [Fetching]"
  "input (run_stream decode [SetInput s, Click] st) = []"
  "requests (run_stream decode [SetInput s, Click] st) = requests st @ [(''/api/chat-stream'', s)]"
  "pending (run_stream decode [SetInput s, Click] st) = []"
  by (simp_all add: sendMessage_stream_def)

text \<open>
  A batch of chunks and the render after it, in a state whose last entry shows the
  text read so far.
\<close>

lemma stream_batch:
  assumes t: "task_at x i = Some Reading" and p: "pending x = []"
    and m: "messages x = pre @ [\<lparr>role = ''ai'', content = aiText x i\<rparr>]"
  shows "run_stream decode (chunk_events i b @ [Render]) x =
         x\<lparr>aiText := (aiText x)(i := aiText x i @ concat (map decode b)),
           messages := pre @ [\<lparr>role = ''ai'', content = aiText x i @ concat (map decode b)\<rparr>]\<rparr>"
    and "map (\<lambda>y. content (last (messages y))) (trace (step_stream decode) (chunk_events i b @ [Render]) x) =
         replicate (length b) (aiText x i) @ [aiText x i @ concat (map decode b)]"
proof -
  let ?y = "x\<lparr>aiText := (aiText x)(i := aiText x i @ concat (map decode b)),
             pending := pending x @ replicate (length b) (WriteLast i)\<rparr>"
  have r: "run_stream decode (chunk_events i b) x = ?y"
    by (rule stream_read_chunks [OF t])
  have f: "fold (call_stream (aiText ?y)) (pending ?y) (messages ?y) =
        pre @ [\<lparr>role = ''ai'', content = aiText x i @ concat (map decode b)\<rparr>]"
    using p m fold_replicate_write [of "aiText ?y" "length b" i pre "\<lparr>role = ''ai'', content = aiText x i\<rparr>"]
    by simp
  show "run_stream decode (chunk_events i b @ [Render]) x =
         x\<lparr>aiText := (aiText x)(i := aiText x i @ concat (map decode b)),
           messages := pre @ [\<lparr>role = ''ai'', content = aiText x i @ concat (map decode b)\<rparr>]\<rparr>"
    using f p by (simp add: run_stream_append r render_stream_def)
  have "\<And>k. k < length b \<Longrightarrow>
      messages (trace (step_stream decode) (chunk_events i b) x ! k) = messages x"
  proof -
    fix k assume k: "k < length b"
    have "trace (step_stream decode) (chunk_events i b) x ! k =
        run_stream decode (chunk_events i (take (Suc k) b)) x"
      using k by (simp add: trace_nth chunk_events_def take_map run_stream_def)
    then show "messages (trace (step_stream decode) (chunk_events i b) x ! k) = messages x"
      by (simp add: stream_read_chunks [OF t])
  qed
  then have "map (\<lambda>y. content (last (messages y))) (trace (step_stream decode) (chunk_events i b) x) =
      replicate (length b) (aiText x i)"
    using m by (intro nth_equalityI) (simp_all add: chunk_events_def)
  moreover have "content (last (messages (step_stream decode Render ?y))) =
      aiText x i @ concat (map decode b)"
    using f by simp
  ultimately show "map (\<lambda>y. content (last (messages y)))
      (trace (step_stream decode) (chunk_events i b @ [Render]) x) =
         replicate (length b) (aiText x i) @ [aiText x i @ concat (map decode b)]"
    using r by (simp add: trace_append run_stream_def)
qed

lemma stream_batches:
  assumes "task_at x i = Some Reading" and "pending x = []"
    and "messages x = pre @ [\<lparr>role = ''ai'', content = aiText x i\<rparr>]"
  shows "run_stream decode (batched_events i bs) x =
         x\<lparr>aiText := (aiText x)(i := aiText x i @ concat (map decode (concat bs))),
           messages := pre @ [\<lparr>role = ''ai'', content = aiText x i @ concat (map decode (concat bs))\<rparr>]\<rparr> \<and>
         map (\<lambda>y. content (last (messages y))) (trace (step_stream decode) (batched_events i bs) x) =
         shown_contents decode (aiText x i) bs"
  using assms
proof (induction bs arbitrary: x)
  case Nil
  have "x\<lparr>aiText := (aiText x)(i := aiText x i), messages := pre @ [\<lparr>role = ''ai'', content = aiText x i\<rparr>]\<rparr> = x"
    using Nil(3) by (intro streaming.equality) simp_all
  then show ?case by (simp add: batched_events_def)
next
  case (Cons b bs)
  let ?x = "x\<lparr>aiText := (aiText x)(i := aiText x i @ concat (map decode b)),
           messages := pre @ [\<lparr>role = ''ai'', content = aiText x i @ concat (map decode b)\<rparr>]\<rparr>"
  note b = stream_batch [OF Cons.prems, of decode b]
  have t: "task_at ?x i = Some Reading" using Cons.prems(1) by simp
  have p: "pending ?x = []" using Cons.prems(2) by simp
  have m: "messages ?x = pre @ [\<lparr>role = ''ai'', content = aiText ?x i\<rparr>]" by simp
  note ih = Cons.IH [OF t p m]
  have split: "batched_events i (b # bs) = (chunk_events i b @ [Render]) @ batched_events i bs"
    by (simp add: batched_events_def)
  have eq: "?x\<lparr>aiText := (aiText ?x)(i := aiText ?x i @ concat (map decode (concat bs))),
           messages := pre @ [\<lparr>role = ''ai'', content = aiText ?x i @ concat (map decode (concat bs))\<rparr>]\<rparr> =
        x\<lparr>aiText := (aiText x)(i := aiText x i @ concat (map decode (concat (b # bs)))),
           messages := pre @ [\<lparr>role = ''ai'', content = aiText x i @ concat (map decode (concat (b # bs)))\<rparr>]\<rparr>"
    by (rule streaming.equality) (simp_all add: fun_eq_iff)
  have "run_stream decode (batched_events i (b # bs)) x = run_stream decode (batched_events i bs) ?x"
    using run_stream_append [of decode "chunk_events i b @ [Render]" "batched_events i bs" x] b(1)
    unfolding split by (simp only:)
  with ih eq have r: "run_stream decode (batched_events i (b # bs)) x =
        x\<lparr>aiText := (aiText x)(i := aiText x i @ concat (map decode (concat (b # bs)))),
           messages := pre @ [\<lparr>role = ''ai'', content = aiText x i @ concat (map decode (concat (b # bs)))\<rparr>]\<rparr>"
    by (simp only:)
  have "fold (step_stream decode) (chunk_events i b @ [Render]) x = ?x"
    using b(1) by (simp only: run_stream_def)
  then have "map (\<lambda>y. content (last (messages y))) (trace (step_stream decode) (batched_events i (b # bs)) x) =
      (replicate (length b) (aiText x i) @ [aiText x i @ concat (map decode b)]) @
      shown_contents decode (aiText ?x i) bs"
    using trace_append [of "step_stream decode" "chunk_events i b @ [Render]" "batched_events i bs" x]
      b(2) ih
    unfolding split by (simp only: map_append)
  then have "map (\<lambda>y. content (last (messages y))) (trace (step_stream decode) (batched_events i (b # bs)) x) =
      shown_contents decode (aiText x i) (b # bs)"
    by simp
  with r show ?case by (simp only:)
qed

lemma stream_finish:
  assumes t: "task_at x i = Some Reading" and p: "pending x = []"
    and m: "messages x = pre @ [\<lparr>role = ''ai'', content = aiText x i\<rparr>]"
    and e: "(e, ph) = (ReadDone i, Finished) \<or> (e, ph) = (ReadFail i, Failed)"
  shows "messages (run_stream decode (chunk_events i cs @ [e, Render]) x) =
           pre @ [\<lparr>role = ''ai'', content = aiText x i @ concat (map decode cs)\<rparr>]"
    and "tasks (run_stream decode (chunk_events i cs @ [e, Render]) x) = (tasks x)[i := ph]"
    and "input (run_stream decode (chunk_events i cs @ [e, Render]) x) = input x"
    and "requests (run_stream decode (chunk_events i cs @ [e, Render]) x) = requests x"
    and "pending (run_stream decode (chunk_events i cs @ [e, Render]) x) = []"
proof -
  let ?y = "x\<lparr>aiText := (aiText x)(i := aiText x i @ concat (map decode cs)),
             pending := pending x @ replicate (length cs) (WriteLast i)\<rparr>"
  have r: "run_stream decode (chunk_events i cs) x = ?y"
    by (rule stream_read_chunks [OF t])
  have ty: "task_at ?y i = Some Reading" using t by simp
  have s: "step_stream decode e ?y = ?y\<lparr>tasks := (tasks ?y)[i := ph]\<rparr>"
    using e ty by auto
  have f: "fold (call_stream (aiText ?y)) (pending ?y) (messages ?y) =
        pre @ [\<lparr>role = ''ai'', content = aiText x i @ concat (map decode cs)\<rparr>]"
    using p m fold_replicate_write [of "aiText ?y" "length cs" i pre "\<lparr>role = ''ai'', content = aiText x i\<rparr>"]
    by simp
  have run: "run_stream decode (chunk_events i cs @ [e, Render]) x =
      render_stream (?y\<lparr>tasks := (tasks ?y)[i := ph]\<rparr>)"
    by (simp add: run_stream_append r s del: step_stream.simps(4-8))
  show "messages (run_stream decode (chunk_events i cs @ [e, Render]) x) =
           pre @ [\<lparr>role = ''ai'', content = aiText x i @ concat (map decode cs)\<rparr>]"
    unfolding run using f by simp
  show "tasks (run_stream decode (chunk_events i cs @ [e, Render]) x) = (tasks x)[i := ph]"
    and "input (run_stream decode (chunk_events i cs @ [e, Render]) x) = input x"
    and "requests (run_stream decode (chunk_events i cs @ [e, Render]) x) = requests x"
    and "pending (run_stream decode (chunk_events i cs @ [e, Render]) x) = []"
    unfolding run by simp_all
qed

text \<open>A whole submit of the by-value streaming component.\<close>

lemma submit_stream_eq:
  "messages (submit_stream decode (s, cs) st) =
     messages (render_stream st) @
       [\<lparr>role = ''user'', content = s\<rparr>, \<lparr>role = ''ai'', content = concat (map decode cs)\<rparr>]"
  "tasks (submit_stream decode (s, cs) st) = tasks st @ [Finished]"
  "input (submit_stream decode (s, cs) st) = []"
  "requests (submit_stream decode (s, cs) st) = requests st @ [(''/api/chat-stream'', s)]"
  "pending (submit_stream decode (s, cs) st) = []"
proof -
  let ?i = "length (tasks st)"
  let ?x = "run_stream decode [SetInput s, Click, FetchOk ?i] st"
  note b = stream_begin [where st = st and decode = decode and s = s]
  have t: "task_at ?x ?i = Some Reading" using b(2) by (simp add: task_at_def)
  have m: "messages ?x = (messages (render_stream st) @ [\<lparr>role = ''user'', content = s\<rparr>]) @
      [\<lparr>role = ''ai'', content = aiText ?x ?i\<rparr>]"
    using b(1) b(6) by simp
  have e: "(ReadDone ?i, Finished) = (ReadDone ?i, Finished) \<or>
      (ReadDone ?i :: 'a event, Finished) = (ReadFail ?i, Failed)" by simp
  note f = stream_finish [OF t b(5) m e, of decode cs]
  have eq: "submit_stream decode (s, cs) st =
      run_stream decode (chunk_events ?i cs @ [ReadDone ?i, Render]) ?x"
    by (simp add: submit_stream_def turn_events_def run_stream_append del: step_stream.simps)
  show "messages (submit_stream decode (s, cs) st) =
     messages (render_stream st) @
       [\<lparr>role = ''user'', content = s\<rparr>, \<lparr>role = ''ai'', content = concat (map decode cs)\<rparr>]"
    unfolding eq using f(1) b(6) by simp
  show "tasks (submit_stream decode (s, cs) st) = tasks st @ [Finished]"
    unfolding eq using f(2) b(2) by simp
  show "input (submit_stream decode (s, cs) st) = []"
    unfolding eq using f(3) b(3) by simp
  show "requests (submit_stream decode (s, cs) st) = requests st @ [(''/api/chat-stream'', s)]"
    unfolding eq using f(4) b(4) by simp
  show "pending (submit_stream decode (s, cs) st) = []"
    unfolding eq using f(5) by simp
qed

section \<open>The store-based component, transferred\<close>

lemma render_chat_idle: "pending c = [] \<Longrightarrow> render_chat c = c"
  by (simp add: render_chat_def)

lemma chat_render_transcript:
  assumes "wf_chat c"
  shows "transcript (render_chat c) = messages (render_stream (view c))"
  using render_chat_ok(1) [OF wf_chat_safe [OF assms]] by (metis view_simps(2))

lemma chat_run_fields:
  assumes "wf_chat c" and "clicks_nonempty es (input c)"
  shows "transcript (run_chat decode es c) = messages (run_stream decode es (view c))"
    and "tasks (run_chat decode es c) = tasks (run_stream decode es (view c))"
    and "input (run_chat decode es c) = input (run_stream decode es (view c))"
    and "requests (run_chat decode es c) = requests (run_stream decode es (view c))"
    and "pending (run_chat decode es c) = pending (run_stream decode es (view c))"
    and "aiText (run_chat decode es c) = aiText (run_stream decode es (view c))"
proof -
  from view_run [OF assms, of decode]
  have v: "view (run_chat decode es c) = run_stream decode es (view c)" by simp
  show "transcript (run_chat decode es c) = messages (run_stream decode es (view c))"
    by (metis v view_simps(2))
  show "tasks (run_chat decode es c) = tasks (run_stream decode es (view c))"
    by (metis v view_simps(3))
  show "input (run_chat decode es c) = input (run_stream decode es (view c))"
    by (metis v view_simps(1))
  show "requests (run_chat decode es c) = requests (run_stream decode es (view c))"
    by (metis v view_simps(4))
  show "pending (run_chat decode es c) = pending (run_stream decode es (view c))"
    by (metis v view_simps(6))
  show "aiText (run_chat decode es c) = aiText (run_stream decode es (view c))"
    by (metis v view_simps(5))
qed

lemma clicks_nonempty_chunks [simp]:
  "clicks_nonempty (chunk_events i cs @ es) inp = clicks_nonempty es inp"
  by (induction cs) (simp_all add: chunk_events_def)

lemma turn_events_clicks: "clicks_nonempty (turn_events i s cs) inp \<longleftrightarrow> s \<noteq> []"
  by (simp add: turn_events_def)

lemma batched_events_clicks [simp]: "clicks_nonempty (batched_events i bs @ es) inp = clicks_nonempty es inp"
  by (induction bs) (simp_all add: batched_events_def)

lemma failing_events_clicks [simp]: "clicks_nonempty (failing_events i r) inp"
  by (cases r) simp_all

text \<open>Events for an invocation that does not exist, has returned or was rejected.\<close>

lemma stream_idle:
  assumes "event_task e = Some i" and "task_at st i \<in> {None, Some Finished, Some Failed}"
  shows "step_stream decode e st = st"
  using assms by (cases e) auto

lemma chat_idle:
  assumes "event_task e = Some i" and "task_at st i \<in> {None, Some Finished, Some Failed}"
  shows "step_chat decode e st = st"
  using assms by (cases e) (auto simp: step_chat_def)

lemma vite_idle:
  assumes "vite_event_task e = Some i" and "task_at st i \<in> {None, Some VFinished, Some VFailed}"
  shows "step_vite e st = st"
  using assms by (cases e) auto

lemma chat_idle_run:
  assumes "list_all (\<lambda>e. event_task e = Some i) es" and "task_at st i = None"
  shows "run_chat decode es st = st"
  using assms by (induction es) (simp_all add: chat_idle)

lemma view_submit:
  assumes "wf_chat c" and "s \<noteq> []"
  shows "view (submit_chat decode (s, cs) c) = submit_stream decode (s, cs) (view c)"
  using view_run [OF assms(1), of "turn_events (length (tasks c)) s cs" decode] assms(2)
  by (simp add: submit_chat_def submit_stream_def turn_events_clicks)

lemma wf_chat_submit: "wf_chat c \<Longrightarrow> wf_chat (submit_chat decode t c)"
  by (simp add: submit_chat_def wf_chat_run)

lemma chat_set_input:
  assumes wf: "wf_chat c"
  shows "transcript (step_chat decode (SetInput s) c) = transcript (render_chat c)"
    and "input (step_chat decode (SetInput s) c) = s"
    and "tasks (step_chat decode (SetInput s) c) = tasks c"
    and "pending (step_chat decode (SetInput s) c) = []"
    and "requests (step_chat decode (SetInput s) c) = requests c"
proof -
  have v: "view (step_chat decode (SetInput s) c) = render_stream ((view c)\<lparr>input := s\<rparr>)"
    using chat_step(1) [OF wf, of "SetInput s" decode] by simp
  from arg_cong [OF v, of messages] chat_render_transcript [OF wf]
  show "transcript (step_chat decode (SetInput s) c) = transcript (render_chat c)" by simp
  from arg_cong [OF v, of input] show "input (step_chat decode (SetInput s) c) = s" by simp
  from arg_cong [OF v, of tasks] show "tasks (step_chat decode (SetInput s) c) = tasks c" by simp
  from arg_cong [OF v, of pending] show "pending (step_chat decode (SetInput s) c) = []" by simp
  from arg_cong [OF v, of requests] show "requests (step_chat decode (SetInput s) c) = requests c" by simp
qed

lemma submit_chat_empty:
  assumes wf: "wf_chat c"
  shows "transcript (submit_chat decode ([], cs) c) = transcript (render_chat c)"
proof -
  let ?i = "length (tasks c)"
  define c1 where "c1 = step_chat decode (SetInput []) c"
  have wf': "wf_chat c1" unfolding c1_def by (rule wf_chat_step [OF wf])
  then have nf': "fault c1 = None" by (simp add: wf_chat_def)
  note f = chat_set_input [OF wf, of decode "[]", folded c1_def]
  have click: "step_chat decode Click c1 = c1"
    using f(2) by (simp add: step_chat_def sendMessage_chat_def)
  have "task_at c1 ?i = None" using f(3) by (simp add: task_at_def)
  moreover have "list_all (\<lambda>e. event_task e = Some ?i) (FetchOk ?i # chunk_events ?i cs @ [ReadDone ?i])"
    by (simp add: chunk_events_def list_all_iff)
  ultimately have idle: "run_chat decode (FetchOk ?i # chunk_events ?i cs @ [ReadDone ?i]) c1 = c1"
    by (rule chat_idle_run [rotated])
  have rend: "step_chat decode Render c1 = c1"
    using nf' f(4) by (simp add: step_chat_def render_chat_idle)
  have "submit_chat decode ([], cs) c =
      step_chat decode Render (run_chat decode (FetchOk ?i # chunk_events ?i cs @ [ReadDone ?i])
        (step_chat decode Click c1))"
    unfolding c1_def submit_chat_def turn_events_def
    by (simp add: run_chat_append del: step_stream.simps)
  with click idle rend f(1) show ?thesis by simp
qed

lemma submit_chat_transcript:
  assumes "wf_chat c"
  shows "transcript (submit_chat decode (s, cs) c) =
     (if s = [] then transcript (render_chat c)
      else transcript (render_chat c) @ [\<lparr>role = ''user'', content = s\<rparr>,
                            \<lparr>role = ''ai'', content = concat (map decode cs)\<rparr>])"
proof (cases "s = []")
  case True
  with submit_chat_empty [OF assms, of decode cs] show ?thesis by simp
next
  case False
  have "transcript (submit_chat decode (s, cs) c) = messages (view (submit_chat decode (s, cs) c))"
    by simp
  also have "\<dots> = messages (submit_stream decode (s, cs) (view c))"
    by (simp only: view_submit [OF assms False])
  finally show ?thesis using False chat_render_transcript [OF assms]
    by (simp add: submit_stream_eq del: render_stream_simps)
qed

section \<open>Submitting\<close>

lemma chat_render_event:
  assumes "wf_chat c"
  shows "step_chat decode Render c = render_chat c"
  using assms by (simp add: step_chat_def wf_chat_def)

lemma chat_submit_prefix:
  assumes wf: "wf_chat c" and ne: "s \<noteq> []"
  shows "transcript (run_chat decode [SetInput s, Click] c) =
           transcript (render_chat c) @
             [\<lparr>role = ''user'', content = s\<rparr>, \<lparr>role = ''ai'', content = []\<rparr>]"
    and "tasks (run_chat decode [SetInput s, Click] c) = tasks c @ [Fetching]"
    and "input (run_chat decode [SetInput s, Click] c) = []"
    and "requests (run_chat decode [SetInput s, Click] c) = requests c @ [(''/api/chat-stream'', s)]"
    and "pending (run_chat decode [SetInput s, Click] c) = []"
proof -
  have g: "clicks_nonempty [SetInput s, Click] (input c)" using ne by simp
  note f = chat_run_fields [OF wf g, of decode]
  note k = stream_click [of decode s "view c"]
  show "transcript (run_chat decode [SetInput s, Click] c) =
           transcript (render_chat c) @
             [\<lparr>role = ''user'', content = s\<rparr>, \<lparr>role = ''ai'', content = []\<rparr>]"
    using f(1) k(1) chat_render_transcript [OF wf] by (simp only:)
  show "tasks (run_chat decode [SetInput s, Click] c) = tasks c @ [Fetching]"
    using f(2) k(2) by (simp only: view_simps)
  show "input (run_chat decode [SetInput s, Click] c) = []"
    using f(3) k(3) by (simp only:)
  show "requests (run_chat decode [SetInput s, Click] c) = requests c @ [(''/api/chat-stream'', s)]"
    using f(4) k(4) by (simp only: view_simps)
  show "pending (run_chat decode [SetInput s, Click] c) = []"
    using f(5) k(5) by (simp only:)
qed

lemma chat_rendered:
  "transcript (run_chat decode (es @ [Render]) init_chat) =
     transcript (render_chat (run_chat decode es init_chat))"
  by (simp add: run_chat_append chat_render_event [OF wf_chat_reachable])

lemma stream_rendered:
  "run_stream decode (es @ [Render]) st = render_stream (run_stream decode es st)"
  by (simp add: run_stream_append)

text \<open>
  Claim C1, as the code has it. For every non-empty input \<open>s\<close>, entering \<open>s\<close> and
  clicking appends, in every reachable state of the two streaming components, exactly
  the two entries \<^verbatim>\<open>{role: "user", content: s}\<close> and \<^verbatim>\<open>{role: "ai", content: ""}\<close>,
  in this order, to the transcript as React renders it (the render that follows the
  handlers runs what earlier events have queued first), and leaves the new invocation
  waiting for the response of \<^verbatim>\<open>fetch\<close>. The whole-response component appends the user
  entry only at that point.
\<close>

theorem submit_appends_before_response:
  assumes "s \<noteq> []"
  shows "transcript (run_chat decode (es @ [SetInput s, Click]) init_chat) =
           transcript (run_chat decode (es @ [Render]) init_chat) @
             [\<lparr>role = ''user'', content = s\<rparr>, \<lparr>role = ''ai'', content = []\<rparr>] \<and>
         tasks (run_chat decode (es @ [SetInput s, Click]) init_chat) =
           tasks (run_chat decode es init_chat) @ [Fetching] \<and>
         messages (run_stream decode' (es' @ [SetInput s, Click]) init_stream) =
           messages (run_stream decode' (es' @ [Render]) init_stream) @
             [\<lparr>role = ''user'', content = s\<rparr>, \<lparr>role = ''ai'', content = []\<rparr>] \<and>
         tasks (run_stream decode' (es' @ [SetInput s, Click]) init_stream) =
           tasks (run_stream decode' es' init_stream) @ [Fetching] \<and>
         messages (run_vite (ves @ [VSetInput s, VClick]) init_vite) =
           messages (run_vite ves init_vite) @ [\<lparr>role = ''user'', content = s\<rparr>] \<and>
         tasks (run_vite (ves @ [VSetInput s, VClick]) init_vite) =
           tasks (run_vite ves init_vite) @ [VFetching]"
proof -
  have wf: "wf_chat (run_chat decode es init_chat)" by (rule wf_chat_reachable)
  note chat = chat_submit_prefix [OF wf assms, of decode]
  have "messages (run_vite (ves @ [VSetInput s, VClick]) init_vite) =
           messages (run_vite ves init_vite) @ [\<lparr>role = ''user'', content = s\<rparr>]"
    and "tasks (run_vite (ves @ [VSetInput s, VClick]) init_vite) =
           tasks (run_vite ves init_vite) @ [VFetching]"
    using assms by (simp_all add: run_vite_append sendMessage_vite_def)
  moreover have "messages (run_stream decode' (es' @ [SetInput s, Click]) init_stream) =
           messages (run_stream decode' (es' @ [Render]) init_stream) @
             [\<lparr>role = ''user'', content = s\<rparr>, \<lparr>role = ''ai'', content = []\<rparr>]"
    and "tasks (run_stream decode' (es' @ [SetInput s, Click]) init_stream) =
           tasks (run_stream decode' es' init_stream) @ [Fetching]"
    using stream_click(1,2) [of decode' s "run_stream decode' es' init_stream"]
      stream_rendered [of decode' es' init_stream]
    by (simp_all add: run_stream_append del: run_stream_Cons)
  moreover have "transcript (run_chat decode (es @ [SetInput s, Click]) init_chat) =
           transcript (run_chat decode (es @ [Render]) init_chat) @
             [\<lparr>role = ''user'', content = s\<rparr>, \<lparr>role = ''ai'', content = []\<rparr>]"
    and "tasks (run_chat decode (es @ [SetInput s, Click]) init_chat) =
           tasks (run_chat decode es init_chat) @ [Fetching]"
    using chat(1,2) chat_rendered [of decode es]
    by (simp_all add: run_chat_append del: run_chat_Cons)
  ultimately show ?thesis by (simp only: simp_thms)
qed

lemma init_transcripts:
  "transcript init_chat = []" "messages init_stream = []" "messages init_vite = []"
  by (simp_all add: init_chat_def init_stream_def init_vite_def transcript_def)

lemma init_tasks: "tasks init_chat = []" "tasks init_stream = []" "tasks init_vite = []"
  by (simp_all add: init_chat_def init_stream_def init_vite_def)

lemma init_rendered:
  "run_chat decode [Render] init_chat = init_chat" "run_stream decode [Render] init_stream = init_stream"
  by (simp_all add: init_chat_def init_stream_def step_chat_def render_chat_def render_stream_def)

theorem submit_appends_before_response_witness:
  "''hi'' \<noteq> [] \<and>
   transcript (run_chat (\<lambda>c. c) [SetInput ''hi'', Click] init_chat) =
     [\<lparr>role = ''user'', content = ''hi''\<rparr>, \<lparr>role = ''ai'', content = []\<rparr>] \<and>
   tasks (run_chat (\<lambda>c. c) [SetInput ''hi'', Click] init_chat) = [Fetching] \<and>
   messages (run_stream (\<lambda>c. c) [SetInput ''hi'', Click] init_stream) =
     [\<lparr>role = ''user'', content = ''hi''\<rparr>, \<lparr>role = ''ai'', content = []\<rparr>] \<and>
   tasks (run_stream (\<lambda>c. c) [SetInput ''hi'', Click] init_stream) = [Fetching] \<and>
   messages (run_vite [VSetInput ''hi'', VClick] init_vite) = [\<lparr>role = ''user'', content = ''hi''\<rparr>] \<and>
   tasks (run_vite [VSetInput ''hi'', VClick] init_vite) = [VFetching]"
proof -
  have ne: "''hi'' \<noteq> []" by simp
  from submit_appends_before_response [OF ne, of "\<lambda>c. c" "[]" "\<lambda>c. c" "[]" "[]"]
  show ?thesis
    unfolding append_Nil init_rendered run_chat_Nil run_stream_Nil run_vite_Nil
      init_transcripts init_tasks
    by simp
qed

text \<open>
  C1 as stated also covers the whole-response component, where it fails: after the
  submit the transcript holds the user entry and no empty assistant entry.
\<close>

theorem whole_response_submit_counterexample:
  "''hi'' \<noteq> [] \<and>
   messages (run_vite [VSetInput ''hi'', VClick] init_vite) = [\<lparr>role = ''user'', content = ''hi''\<rparr>] \<and>
   messages (run_vite [VSetInput ''hi'', VClick] init_vite) \<noteq>
     messages init_vite @ [\<lparr>role = ''user'', content = ''hi''\<rparr>, \<lparr>role = ''ai'', content = []\<rparr>]"
  by (simp add: init_vite_def sendMessage_vite_def)

text \<open>
  Claim C2, as the code has it. In the two components with a guard (the store-based
  streaming one and the whole-response one) a click on an empty input field leaves the
  whole state as it is: the transcript is unchanged, no request is logged, no invocation
  starts and nothing is thrown. The guard \<^verbatim>\<open>if (!input) return\<close> tests for the empty
  string only: a string of white space that is not empty is submitted like any other
  text, in all three components.
\<close>

theorem empty_input_is_ignored:
  "(input c = [] \<longrightarrow> step_chat decode Click c = c) \<and>
   (input v = [] \<longrightarrow> step_vite VClick v = v) \<and>
   (blank s \<and> s \<noteq> [] \<longrightarrow>
      transcript (run_chat decode (es @ [SetInput s, Click]) init_chat) =
        transcript (run_chat decode (es @ [Render]) init_chat) @
          [\<lparr>role = ''user'', content = s\<rparr>, \<lparr>role = ''ai'', content = []\<rparr>] \<and>
      requests (run_chat decode (es @ [SetInput s, Click]) init_chat) =
        requests (run_chat decode es init_chat) @ [(''/api/chat-stream'', s)] \<and>
      messages (run_stream decode' (es' @ [SetInput s, Click]) init_stream) =
        messages (run_stream decode' (es' @ [Render]) init_stream) @
          [\<lparr>role = ''user'', content = s\<rparr>, \<lparr>role = ''ai'', content = []\<rparr>] \<and>
      requests (run_stream decode' (es' @ [SetInput s, Click]) init_stream) =
        requests (run_stream decode' es' init_stream) @ [(''/api/chat-stream'', s)] \<and>
      messages (run_vite (ves @ [VSetInput s, VClick]) init_vite) =
        messages (run_vite ves init_vite) @ [\<lparr>role = ''user'', content = s\<rparr>] \<and>
      requests (run_vite (ves @ [VSetInput s, VClick]) init_vite) =
        requests (run_vite ves init_vite) @ [(''/api/chat'', s)])"
proof (intro conjI impI)
  assume "input c = []"
  then show "step_chat decode Click c = c"
    by (simp add: step_chat_def sendMessage_chat_def)
next
  assume "input v = []"
  then show "step_vite VClick v = v"
    by (simp add: sendMessage_vite_def)
next
  assume "blank s \<and> s \<noteq> []"
  then have ne: "s \<noteq> []" by simp
  have wf: "wf_chat (run_chat decode es init_chat)" by (rule wf_chat_reachable)
  note chat = chat_submit_prefix [OF wf ne, of decode]
  show "transcript (run_chat decode (es @ [SetInput s, Click]) init_chat) =
        transcript (run_chat decode (es @ [Render]) init_chat) @
          [\<lparr>role = ''user'', content = s\<rparr>, \<lparr>role = ''ai'', content = []\<rparr>]"
    using chat(1) chat_rendered [of decode es]
    by (simp add: run_chat_append del: run_chat_Cons)
  show "requests (run_chat decode (es @ [SetInput s, Click]) init_chat) =
        requests (run_chat decode es init_chat) @ [(''/api/chat-stream'', s)]"
    using chat(4) by (simp add: run_chat_append del: run_chat_Cons)
  show "messages (run_stream decode' (es' @ [SetInput s, Click]) init_stream) =
        messages (run_stream decode' (es' @ [Render]) init_stream) @
          [\<lparr>role = ''user'', content = s\<rparr>, \<lparr>role = ''ai'', content = []\<rparr>]"
    using stream_click(1) [of decode' s "run_stream decode' es' init_stream"]
      stream_rendered [of decode' es' init_stream]
    by (simp add: run_stream_append del: run_stream_Cons)
  show "requests (run_stream decode' (es' @ [SetInput s, Click]) init_stream) =
        requests (run_stream decode' es' init_stream) @ [(''/api/chat-stream'', s)]"
    using stream_click(4) [of decode' s "run_stream decode' es' init_stream"]
    by (simp add: run_stream_append del: run_stream_Cons)
  show "messages (run_vite (ves @ [VSetInput s, VClick]) init_vite) =
        messages (run_vite ves init_vite) @ [\<lparr>role = ''user'', content = s\<rparr>]"
    using ne by (simp add: run_vite_append sendMessage_vite_def)
  show "requests (run_vite (ves @ [VSetInput s, VClick]) init_vite) =
        requests (run_vite ves init_vite) @ [(''/api/chat'', s)]"
    using ne by (simp add: run_vite_append sendMessage_vite_def)
qed

lemma init_fields:
  "input init_chat = []" "input init_vite = []" "requests init_chat = []"
  "requests init_stream = []" "requests init_vite = []"
  by (simp_all add: init_chat_def init_stream_def init_vite_def)

theorem empty_input_is_ignored_witness:
  "input init_chat = [] \<and> step_chat (\<lambda>c. c) Click init_chat = init_chat \<and>
   input init_vite = [] \<and> step_vite VClick init_vite = init_vite \<and>
   blank '' '' \<and> '' '' \<noteq> [] \<and>
   transcript (run_chat (\<lambda>c. c) [SetInput '' '', Click] init_chat) =
     [\<lparr>role = ''user'', content = '' ''\<rparr>, \<lparr>role = ''ai'', content = []\<rparr>] \<and>
   requests (run_chat (\<lambda>c. c) [SetInput '' '', Click] init_chat) = [(''/api/chat-stream'', '' '')] \<and>
   messages (run_stream (\<lambda>c. c) [SetInput '' '', Click] init_stream) =
     [\<lparr>role = ''user'', content = '' ''\<rparr>, \<lparr>role = ''ai'', content = []\<rparr>] \<and>
   requests (run_stream (\<lambda>c. c) [SetInput '' '', Click] init_stream) = [(''/api/chat-stream'', '' '')] \<and>
   messages (run_vite [VSetInput '' '', VClick] init_vite) = [\<lparr>role = ''user'', content = '' ''\<rparr>] \<and>
   requests (run_vite [VSetInput '' '', VClick] init_vite) = [(''/api/chat'', '' '')]"
proof -
  have b: "blank '' '' \<and> '' '' \<noteq> []" by (simp add: blank_def)
  from empty_input_is_ignored [of init_chat "\<lambda>c. c" init_vite "'' ''" "[]" "\<lambda>c. c" "[]" "[]"] b
  show ?thesis
    unfolding append_Nil init_rendered run_chat_Nil run_stream_Nil run_vite_Nil
      init_transcripts init_fields
    by simp
qed

text \<open>
  C2 as stated fails on a string of one space, in each of the three components: the
  transcript grows and a request is sent.
\<close>

theorem blank_input_counterexample:
  "blank '' '' \<and>
   transcript (run_chat (\<lambda>c. c) [SetInput '' '', Click] init_chat) \<noteq> transcript init_chat \<and>
   requests (run_chat (\<lambda>c. c) [SetInput '' '', Click] init_chat) = [(''/api/chat-stream'', '' '')] \<and>
   messages (run_vite [VSetInput '' '', VClick] init_vite) \<noteq> messages init_vite \<and>
   messages (run_stream (\<lambda>c. c) [SetInput '' '', Click] init_stream) \<noteq> messages init_stream"
  by (simp add: init_chat_def init_stream_def init_vite_def transcript_def blank_def
      step_chat_def sendMessage_chat_def sendMessage_stream_def sendMessage_vite_def
      render_chat_def render_stream_def)

section \<open>Roles\<close>

lemma alternates_role:
  assumes "alternates ms" and "i < length ms"
  shows "role (ms ! i) = ''user'' \<or> role (ms ! i) = ''ai''"
  using assms by (simp add: alternates_nth)

lemma vite_roles_step:
  assumes "list_all (\<lambda>m. role m = ''user'' \<or> role m = ''ai'') (messages st)"
  shows "list_all (\<lambda>m. role m = ''user'' \<or> role m = ''ai'') (messages (step_vite e st))"
  using assms by (cases e) (simp_all add: sendMessage_vite_def)

lemma vite_roles_run:
  assumes "list_all (\<lambda>m. role m = ''user'' \<or> role m = ''ai'') (messages st)"
  shows "list_all (\<lambda>m. role m = ''user'' \<or> role m = ''ai'') (messages (run_vite es st))"
  using assms by (induction es arbitrary: st) (simp_all add: vite_roles_step)

text \<open>
  Claim C3. In every reachable state of each of the three components, every entry of
  the transcript has the role \<^verbatim>\<open>"user"\<close> or the role \<^verbatim>\<open>"ai"\<close> (the assistant).
\<close>

theorem roles_are_user_or_assistant:
  "(\<forall>i < length (transcript (run_chat decode es init_chat)).
      role (transcript (run_chat decode es init_chat) ! i) = ''user'' \<or>
      role (transcript (run_chat decode es init_chat) ! i) = ''ai'') \<and>
   (\<forall>i < length (messages (run_stream decode' es' init_stream)).
      role (messages (run_stream decode' es' init_stream) ! i) = ''user'' \<or>
      role (messages (run_stream decode' es' init_stream) ! i) = ''ai'') \<and>
   (\<forall>i < length (messages (run_vite ves init_vite)).
      role (messages (run_vite ves init_vite) ! i) = ''user'' \<or>
      role (messages (run_vite ves init_vite) ! i) = ''ai'')"
proof (intro conjI allI impI)
  fix i assume "i < length (transcript (run_chat decode es init_chat))"
  moreover have "alternates (transcript (run_chat decode es init_chat))"
    using wf_chat_reachable [of decode es] by (simp add: wf_chat_def good_store_def transcript_def)
  ultimately show "role (transcript (run_chat decode es init_chat) ! i) = ''user'' \<or>
      role (transcript (run_chat decode es init_chat) ! i) = ''ai''"
    by (simp add: alternates_role)
next
  fix i assume "i < length (messages (run_stream decode' es' init_stream))"
  moreover have "alternates (messages (run_stream decode' es' init_stream))"
    using inv_stream_reachable [of decode' es'] by (simp add: inv_stream_def)
  ultimately show "role (messages (run_stream decode' es' init_stream) ! i) = ''user'' \<or>
      role (messages (run_stream decode' es' init_stream) ! i) = ''ai''"
    by (simp add: alternates_role)
next
  fix i assume i: "i < length (messages (run_vite ves init_vite))"
  have "list_all (\<lambda>m. role m = ''user'' \<or> role m = ''ai'') (messages (run_vite ves init_vite))"
    by (rule vite_roles_run) (simp add: init_vite_def)
  with i show "role (messages (run_vite ves init_vite) ! i) = ''user'' \<or>
      role (messages (run_vite ves init_vite) ! i) = ''ai''"
    by (simp add: list_all_length)
qed

theorem roles_are_user_or_assistant_witness:
  "map role (transcript (run_chat (\<lambda>c. c)
      [SetInput ''hi'', Click, FetchOk 0, ReadChunk 0 ''He'', ReadChunk 0 ''llo'', ReadDone 0] init_chat))
     = [''user'', ''ai''] \<and>
   map role (messages (run_stream (\<lambda>c. c)
      [Click, SetInput ''hi'', Click, FetchOk 1, ReadChunk 1 ''He'', FetchFail 0] init_stream))
     = [''user'', ''ai'', ''user'', ''ai''] \<and>
   map role (messages (run_vite
      [VSetInput ''a'', VClick, VSetInput ''b'', VClick, VFetchOk 1, VJsonOk 1 ''x'', VFetchOk 0, VJsonOk 0 ''y'']
      init_vite))
     = [''user'', ''user'', ''ai'', ''ai'']"
  using roles_are_user_or_assistant [of "\<lambda>c. c"
      "[SetInput ''hi'', Click, FetchOk 0, ReadChunk 0 ''He'', ReadChunk 0 ''llo'', ReadDone 0]"
      "\<lambda>c. c" "[Click, SetInput ''hi'', Click, FetchOk 1, ReadChunk 1 ''He'', FetchFail 0]"
      "[VSetInput ''a'', VClick, VSetInput ''b'', VClick, VFetchOk 1, VJsonOk 1 ''x'', VFetchOk 0, VJsonOk 0 ''y'']"]
  by (simp add: init_chat_def init_stream_def init_vite_def transcript_def step_chat_def
      sendMessage_chat_def sendMessage_stream_def sendMessage_vite_def task_at_def
      render_chat_def render_stream_def setLastContent_def replaceLast_def Let_def)

section \<open>The whole response\<close>

lemma vite_turn_trace:
  assumes "s \<noteq> []"
  shows "map messages (trace step_vite (vite_turn_events (length (tasks v)) s reply) v) =
     [messages v,
      messages v @ [\<lparr>role = ''user'', content = s\<rparr>],
      messages v @ [\<lparr>role = ''user'', content = s\<rparr>],
      messages v @ [\<lparr>role = ''user'', content = s\<rparr>, \<lparr>role = ''ai'', content = reply\<rparr>]]"
  using assms by (simp add: vite_turn_events_def sendMessage_vite_def task_at_def)

lemma submit_vite_eq:
  "messages (submit_vite (s, reply) v) =
     (if s = [] then messages v
      else messages v @ [\<lparr>role = ''user'', content = s\<rparr>, \<lparr>role = ''ai'', content = reply\<rparr>])"
  "input (submit_vite (s, reply) v) = []"
  by (simp_all add: submit_vite_def vite_turn_events_def sendMessage_vite_def task_at_def)

text \<open>
  Claim C4, as the code has it. In the whole-response component a submit of a
  non-empty \<open>s\<close> that is answered by a body with the reply field \<open>reply\<close> takes the
  transcript through these states and no others: the old transcript, the old transcript
  with the user entry (after the click, and still so when the response headers are in),
  and the old transcript with the user entry and \<^verbatim>\<open>{role: "ai", content: reply}\<close>. The
  assistant entry is appended with the reply in it; none exists before, and the last
  entry of the final transcript is that entry.
\<close>

theorem whole_response_single_update:
  assumes "s \<noteq> []"
  shows "map messages (trace step_vite (vite_turn_events (length (tasks v)) s reply) v) =
           [messages v,
            messages v @ [\<lparr>role = ''user'', content = s\<rparr>],
            messages v @ [\<lparr>role = ''user'', content = s\<rparr>],
            messages v @ [\<lparr>role = ''user'', content = s\<rparr>, \<lparr>role = ''ai'', content = reply\<rparr>]] \<and>
         messages (submit_vite (s, reply) v) =
           messages v @ [\<lparr>role = ''user'', content = s\<rparr>, \<lparr>role = ''ai'', content = reply\<rparr>] \<and>
         last (messages (submit_vite (s, reply) v)) = \<lparr>role = ''ai'', content = reply\<rparr>"
  using assms vite_turn_trace [OF assms, of v reply] by (simp add: submit_vite_eq)

theorem whole_response_single_update_witness:
  "''hi'' \<noteq> [] \<and>
   map messages (trace step_vite (vite_turn_events 0 ''hi'' ''hello'') init_vite) =
     [ [],
      [\<lparr>role = ''user'', content = ''hi''\<rparr>],
      [\<lparr>role = ''user'', content = ''hi''\<rparr>],
      [\<lparr>role = ''user'', content = ''hi''\<rparr>, \<lparr>role = ''ai'', content = ''hello''\<rparr>]] \<and>
   messages (submit_vite (''hi'', ''hello'') init_vite) =
     [\<lparr>role = ''user'', content = ''hi''\<rparr>, \<lparr>role = ''ai'', content = ''hello''\<rparr>] \<and>
   last (messages (submit_vite (''hi'', ''hello'') init_vite)) = \<lparr>role = ''ai'', content = ''hello''\<rparr>"
  using whole_response_single_update [of "''hi''" init_vite "''hello''"]
  by (simp add: init_vite_def)

text \<open>
  C4 as stated speaks of an assistant entry created empty at submit time. After the
  submit, and until the reply is in, the transcript of the whole-response component
  holds no assistant entry at all.
\<close>

theorem whole_response_no_empty_assistant_counterexample:
  "messages (run_vite [VSetInput ''hi'', VClick] init_vite) = [\<lparr>role = ''user'', content = ''hi''\<rparr>] \<and>
   messages (run_vite [VSetInput ''hi'', VClick, VFetchOk 0] init_vite) =
     [\<lparr>role = ''user'', content = ''hi''\<rparr>] \<and>
   \<lparr>role = ''ai'', content = []\<rparr> \<notin> set (messages (run_vite [VSetInput ''hi'', VClick] init_vite))"
  by (simp add: init_vite_def sendMessage_vite_def task_at_def)

section \<open>The stream\<close>

lemma stream_batched_trace:
  fixes st :: stream_app and decode :: "'c \<Rightarrow> string" and s :: string and bs :: "'c list list"
  defines "x \<equiv> run_stream decode [SetInput s, Click, FetchOk (length (tasks st))] st"
  shows "map (\<lambda>y. content (last (messages y)))
           (trace (step_stream decode) (batched_events (length (tasks st)) bs) x) =
         shown_contents decode [] bs"
    and "messages (run_stream decode (batched_events (length (tasks st)) bs) x) =
         messages (render_stream st) @ [\<lparr>role = ''user'', content = s\<rparr>,
           \<lparr>role = ''ai'', content = concat (map decode (concat bs))\<rparr>]"
proof -
  let ?i = "length (tasks st)"
  note b = stream_begin [where st = st and decode = decode and s = s, folded x_def]
  have t: "task_at x ?i = Some Reading" using b(2) by (simp add: task_at_def)
  have a: "aiText x ?i = []" using b(6) by simp
  have m: "messages x = (messages (render_stream st) @ [\<lparr>role = ''user'', content = s\<rparr>]) @
      [\<lparr>role = ''ai'', content = aiText x ?i\<rparr>]"
    using b(1) a by simp
  note r = stream_batches [OF t b(5) m, of decode bs]
  from r a show "map (\<lambda>y. content (last (messages y)))
           (trace (step_stream decode) (batched_events ?i bs) x) = shown_contents decode [] bs"
    by simp
  from r a show "messages (run_stream decode (batched_events ?i bs) x) =
         messages (render_stream st) @ [\<lparr>role = ''user'', content = s\<rparr>,
           \<lparr>role = ''ai'', content = concat (map decode (concat bs))\<rparr>]"
    by simp
qed

text \<open>The same for the store-based component, through its view.\<close>

lemma chat_batched_trace:
  fixes c :: chat_app and decode :: "'c \<Rightarrow> string" and s :: string and bs :: "'c list list"
  defines "x \<equiv> run_chat decode [SetInput s, Click, FetchOk (length (tasks c))] c"
  assumes wf: "wf_chat c" and ne: "s \<noteq> []"
  shows "map (\<lambda>y. content (last (transcript y)))
           (trace (step_chat decode) (batched_events (length (tasks c)) bs) x) =
         shown_contents decode [] bs"
    and "transcript (run_chat decode (batched_events (length (tasks c)) bs) x) =
         transcript (render_chat c) @ [\<lparr>role = ''user'', content = s\<rparr>,
           \<lparr>role = ''ai'', content = concat (map decode (concat bs))\<rparr>]"
proof -
  let ?i = "length (tasks c)"
  let ?pre = "[SetInput s, Click, FetchOk ?i] :: 'c event list"
  have wfx: "wf_chat x" unfolding x_def by (rule wf_chat_run [OF wf])
  have pre: "clicks_nonempty ?pre (input c)" using ne by simp
  from view_run [OF wf pre, of decode]
  have vx: "view x = run_stream decode [SetInput s, Click, FetchOk (length (tasks (view c)))] (view c)"
    by (simp add: x_def)
  have g: "clicks_nonempty (batched_events ?i bs) (input x)"
    using batched_events_clicks [of ?i bs "[]"] by simp
  note v = view_run [OF wfx g, of decode]
  note sb = stream_batched_trace [where st = "view c" and decode = decode and s = s and bs = bs,
      folded vx, unfolded view_simps]
  have "map (\<lambda>y. content (last (transcript y))) (trace (step_chat decode) (batched_events ?i bs) x) =
      map (\<lambda>t. content (last t)) (map transcript (trace (step_chat decode) (batched_events ?i bs) x))"
    by (simp add: comp_def)
  also have "\<dots> = map (\<lambda>t. content (last t))
      (map messages (trace (step_stream decode) (batched_events ?i bs) (view x)))"
    using v by (simp only:)
  also have "\<dots> = shown_contents decode [] bs"
    using sb(1) by (simp add: comp_def)
  finally show "map (\<lambda>y. content (last (transcript y)))
      (trace (step_chat decode) (batched_events ?i bs) x) = shown_contents decode [] bs" .
  have "transcript (run_chat decode (batched_events ?i bs) x) =
      messages (run_stream decode (batched_events ?i bs) (view x))"
    using v by (metis view_simps(2))
  with sb(2) chat_render_transcript [OF wf]
  show "transcript (run_chat decode (batched_events ?i bs) x) =
         transcript (render_chat c) @ [\<lparr>role = ''user'', content = s\<rparr>,
           \<lparr>role = ''ai'', content = concat (map decode (concat bs))\<rparr>]"
    by (simp only:)
qed

text \<open>When a render follows every chunk, the contents shown are the texts of the growing prefixes.\<close>

lemma shown_contents_each:
  "shown_contents decode acc (map (\<lambda>c. [c]) cs) =
     concat (map (\<lambda>k. [acc @ concat (map decode (take k cs)),
                        acc @ concat (map decode (take (Suc k) cs))]) [0..<length cs])"
proof (induction cs arbitrary: acc)
  case Nil
  then show ?case by simp
next
  case (Cons c cs)
  have "[0..<length (c # cs)] = 0 # map Suc [0..<length cs]"
    by (simp add: upt_conv_Cons map_Suc_upt del: upt_Suc)
  then show ?case using Cons.IH [of "acc @ decode c"]
    by (simp add: comp_def del: upt_Suc)
qed

text \<open>Chunks read with no render in between are shown together.\<close>

lemma shown_contents_together:
  "shown_contents decode acc [cs] = replicate (length cs) acc @ [acc @ concat (map decode cs)]"
  by simp

text \<open>
  Claim C5, as the code has it. In both streaming components, when a non-empty \<open>s\<close>
  is submitted, the content of the last transcript entry changes at a render only, and
  there it becomes the concatenation of the decoded chunks read so far. So the values it
  takes are texts of growing prefixes of the chunk sequence, in order, and the last is
  the whole text. When a render follows every chunk, the value after the \<open>k\<close>-th chunk
  is the concatenation of the decoded chunks 1 to \<open>k\<close>: for \<^verbatim>\<open>"He"\<close>, \<^verbatim>\<open>"llo"\<close> the
  content goes from the empty string to \<^verbatim>\<open>"He"\<close> and then to \<^verbatim>\<open>"Hello"\<close>. The
  function the loop queues reads \<^verbatim>\<open>aiText\<close> when React calls it, so chunks that are
  read with no render in between are shown together.
\<close>

theorem streaming_content_is_cumulative:
  fixes decode :: "'c \<Rightarrow> string" and es :: "'c event list" and bs :: "'c list list"
    and cs :: "'c list" and st :: stream_app and s :: string
  defines "c \<equiv> run_chat decode es init_chat"
  assumes "s \<noteq> []"
  shows "map (\<lambda>x. content (last (transcript x)))
           (trace (step_chat decode) (batched_events (length (tasks c)) bs)
              (run_chat decode [SetInput s, Click, FetchOk (length (tasks c))] c)) =
         shown_contents decode [] bs \<and>
         content (last (transcript (run_chat decode (batched_events (length (tasks c)) bs)
              (run_chat decode [SetInput s, Click, FetchOk (length (tasks c))] c)))) =
         concat (map decode (concat bs)) \<and>
         map (\<lambda>x. content (last (messages x)))
           (trace (step_stream decode) (batched_events (length (tasks st)) bs)
              (run_stream decode [SetInput s, Click, FetchOk (length (tasks st))] st)) =
         shown_contents decode [] bs \<and>
         content (last (messages (run_stream decode (batched_events (length (tasks st)) bs)
              (run_stream decode [SetInput s, Click, FetchOk (length (tasks st))] st)))) =
         concat (map decode (concat bs)) \<and>
         shown_contents decode [] (map (\<lambda>c. [c]) cs) =
           concat (map (\<lambda>k. [concat (map decode (take k cs)),
                              concat (map decode (take (Suc k) cs))]) [0..<length cs]) \<and>
         shown_contents decode [] [cs] = replicate (length cs) [] @ [concat (map decode cs)]"
proof -
  have wf: "wf_chat c" unfolding c_def by (rule wf_chat_reachable)
  note ch = chat_batched_trace [OF wf assms(2), of decode bs]
  note sb = stream_batched_trace [where st = st and decode = decode and s = s and bs = bs]
  have "content (last (transcript (run_chat decode (batched_events (length (tasks c)) bs)
              (run_chat decode [SetInput s, Click, FetchOk (length (tasks c))] c)))) =
         concat (map decode (concat bs))"
    by (simp only: ch(2)) simp
  moreover have "content (last (messages (run_stream decode (batched_events (length (tasks st)) bs)
              (run_stream decode [SetInput s, Click, FetchOk (length (tasks st))] st)))) =
         concat (map decode (concat bs))"
    by (simp only: sb(2)) simp
  moreover have "shown_contents decode [] (map (\<lambda>c. [c]) cs) =
           concat (map (\<lambda>k. [concat (map decode (take k cs)),
                              concat (map decode (take (Suc k) cs))]) [0..<length cs])"
    using shown_contents_each [of decode "[]" cs] by simp
  moreover have "shown_contents decode [] [cs] = replicate (length cs) [] @ [concat (map decode cs)]"
    by simp
  ultimately show ?thesis using ch(1) sb(1) by (simp only: simp_thms)
qed

theorem streaming_content_is_cumulative_witness:
  "''hi'' \<noteq> [] \<and>
   map (\<lambda>x. content (last (transcript x)))
     (trace (step_chat (\<lambda>c. c)) (batched_events 0 [ [''He''], [''llo'']])
        (run_chat (\<lambda>c. c) [SetInput ''hi'', Click, FetchOk 0] init_chat)) =
     ['''', ''He'', ''He'', ''Hello''] \<and>
   map (\<lambda>x. content (last (messages x)))
     (trace (step_stream (\<lambda>c. c)) (batched_events 0 [ [''He''], [''llo'']])
        (run_stream (\<lambda>c. c) [SetInput ''hi'', Click, FetchOk 0] init_stream)) =
     ['''', ''He'', ''He'', ''Hello''] \<and>
   content (last (messages (run_stream (\<lambda>c. c) (batched_events 0 [ [''He''], [''llo'']])
        (run_stream (\<lambda>c. c) [SetInput ''hi'', Click, FetchOk 0] init_stream)))) = ''Hello''"
proof -
  have ne: "''hi'' \<noteq> []" by simp
  from streaming_content_is_cumulative [where s = "''hi''" and decode = "\<lambda>c. c" and es = "[]"
      and bs = "[ [''He''], [''llo'']]" and st = init_stream and cs = "[]", OF ne]
  show ?thesis
    unfolding run_chat_Nil init_tasks list.size by simp
qed

text \<open>
  C5 as stated has the content pass through \<^verbatim>\<open>"He"\<close> whenever the chunks \<^verbatim>\<open>"He"\<close>,
  \<^verbatim>\<open>"llo"\<close> arrive. When both are read before React renders, the content is empty
  after each of them and \<^verbatim>\<open>"Hello"\<close> after the render; \<^verbatim>\<open>"He"\<close> is never shown.
\<close>

theorem back_to_back_chunks_counterexample:
  "map (\<lambda>x. content (last (messages x)))
     (trace (step_stream (\<lambda>c. c)) [ReadChunk 0 ''He'', ReadChunk 0 ''llo'', Render]
        (run_stream (\<lambda>c. c) [SetInput ''hi'', Click, FetchOk 0] init_stream)) =
     ['''', '''', ''Hello''] \<and>
   map (\<lambda>x. content (last (transcript x)))
     (trace (step_chat (\<lambda>c. c)) [ReadChunk 0 ''He'', ReadChunk 0 ''llo'', Render]
        (run_chat (\<lambda>c. c) [SetInput ''hi'', Click, FetchOk 0] init_chat)) =
     ['''', '''', ''Hello''] \<and>
   ''He'' \<notin> set (map (\<lambda>x. content (last (messages x)))
     (trace (step_stream (\<lambda>c. c)) [ReadChunk 0 ''He'', ReadChunk 0 ''llo'', Render]
        (run_stream (\<lambda>c. c) [SetInput ''hi'', Click, FetchOk 0] init_stream)))"
  by (simp add: init_chat_def init_stream_def transcript_def step_chat_def
      sendMessage_chat_def sendMessage_stream_def task_at_def
      render_chat_def render_stream_def setLastContent_def replaceLast_def Let_def)

text \<open>
  Claim C6. In both streaming components the transcript at the end of a submit
  depends on the chunks only through the concatenation of their decoded texts: two
  chunk lists with the same concatenation give the same final transcript, whose last
  entry, for a non-empty input, is the assistant entry with that concatenation, after
  the transcript as React renders it before the submit. This holds from every reachable
  state, a fresh session among them.
\<close>

theorem final_content_ignores_chunk_boundaries:
  fixes decode :: "'c \<Rightarrow> string" and es :: "'c event list" and st :: stream_app
  defines "c \<equiv> run_chat decode es init_chat"
  assumes "concat (map decode csa) = concat (map decode csb)"
  shows "transcript (submit_chat decode (s, csa) c) = transcript (submit_chat decode (s, csb) c) \<and>
         messages (submit_stream decode (s, csa) st) = messages (submit_stream decode (s, csb) st) \<and>
         (s \<noteq> [] \<longrightarrow>
            transcript (submit_chat decode (s, csa) c) =
              transcript (run_chat decode (es @ [Render]) init_chat) @
                [\<lparr>role = ''user'', content = s\<rparr>,
                 \<lparr>role = ''ai'', content = concat (map decode csa)\<rparr>]) \<and>
         messages (submit_stream decode (s, csa) st) =
           messages (render_stream st) @ [\<lparr>role = ''user'', content = s\<rparr>,
                          \<lparr>role = ''ai'', content = concat (map decode csa)\<rparr>]"
proof -
  have wf: "wf_chat c" unfolding c_def by (rule wf_chat_reachable)
  have r: "transcript (run_chat decode (es @ [Render]) init_chat) = transcript (render_chat c)"
    unfolding c_def by (rule chat_rendered)
  show ?thesis
    using assms(2) by (simp add: submit_chat_transcript [OF wf] submit_stream_eq r del: render_stream_simps)
qed

theorem final_content_ignores_chunk_boundaries_witness:
  "concat (map (\<lambda>c. c) [''He'', ''llo'']) = concat (map (\<lambda>c. c) [''H'', ''e'', ''l'', ''l'', ''o'']) \<and>
   transcript (submit_chat (\<lambda>c. c) (''hi'', [''He'', ''llo'']) init_chat) =
     [\<lparr>role = ''user'', content = ''hi''\<rparr>, \<lparr>role = ''ai'', content = ''Hello''\<rparr>] \<and>
   transcript (submit_chat (\<lambda>c. c) (''hi'', [''H'', ''e'', ''l'', ''l'', ''o'']) init_chat) =
     [\<lparr>role = ''user'', content = ''hi''\<rparr>, \<lparr>role = ''ai'', content = ''Hello''\<rparr>] \<and>
   messages (submit_stream (\<lambda>c. c) (''hi'', [''He'', ''llo'']) init_stream) =
     [\<lparr>role = ''user'', content = ''hi''\<rparr>, \<lparr>role = ''ai'', content = ''Hello''\<rparr>] \<and>
   messages (submit_stream (\<lambda>c. c) (''hi'', [''H'', ''e'', ''l'', ''l'', ''o'']) init_stream) =
     [\<lparr>role = ''user'', content = ''hi''\<rparr>, \<lparr>role = ''ai'', content = ''Hello''\<rparr>]"
proof -
  have h: "concat (map (\<lambda>c. c) [''He'', ''llo'']) = concat (map (\<lambda>c. c) [''H'', ''e'', ''l'', ''l'', ''o''])"
    by simp
  have i: "messages (render_stream init_stream) = []" by (simp add: init_stream_def)
  from final_content_ignores_chunk_boundaries [where decode = "\<lambda>c. c" and csa = "[''He'', ''llo'']"
      and csb = "[''H'', ''e'', ''l'', ''l'', ''o'']" and s = "''hi''" and es = "[]" and st = init_stream, OF h]
  show ?thesis
    unfolding append_Nil init_rendered run_chat_Nil init_transcripts i
    by auto
qed

text \<open>
  What counts is the decoded text of each chunk. With a decoder that does not commute
  with concatenation at some cut (a character of several bytes cut in two, each half
  decoded on its own), the two ways of delivering the same bytes end differently.
\<close>

lemma chunk_cut_matters:
  assumes "decode (a @ b) \<noteq> decode a @ decode b"
  shows "messages (submit_stream decode (s, [a @ b]) st) \<noteq>
         messages (submit_stream decode (s, [a, b]) st)"
  using assms by (simp add: submit_stream_eq del: render_stream_simps)

section \<open>The order of the roles\<close>

lemma alternates_begins:
  assumes "alternates t" and "even (length t)" and "t \<noteq> []"
  shows "take 2 (map role t) = [''user'', ''ai'']"
proof -
  from assms(2,3) obtain u a rest where t: "t = u # a # rest"
    by (cases t; cases "tl t") auto
  then have "0 < length t" "1 < length t" by simp_all
  with assms(1) have "role (t ! 0) = ''user''" "role (t ! 1) = ''ai''"
    unfolding alternates_nth by (metis even_zero, metis odd_one)
  with t show ?thesis by simp
qed

lemma wf_chat_turns: "wf_chat c \<Longrightarrow> wf_chat (fold (submit_chat decode) ts c)"
  by (induction ts arbitrary: c) (simp_all add: wf_chat_submit)

lemma inv_stream_turns: "inv_stream st \<Longrightarrow> inv_stream (fold (submit_stream decode) ts st)"
  by (induction ts arbitrary: st) (simp_all add: submit_stream_def inv_stream_run)

lemma vite_turn_alternates:
  assumes "alternates (messages v) \<and> even (length (messages v))"
  shows "alternates (messages (submit_vite t v)) \<and> even (length (messages (submit_vite t v)))"
proof (cases t)
  case (Pair s reply)
  from assms have "alternates (messages v @ [\<lparr>role = ''user'', content = s\<rparr>,
      \<lparr>role = ''ai'', content = reply\<rparr>])"
    by (intro alternates_append_turn) simp_all
  with assms Pair show ?thesis by (simp add: submit_vite_eq)
qed

lemma vite_turns_alternate:
  assumes "alternates (messages v) \<and> even (length (messages v))"
  shows "alternates (messages (fold submit_vite ts v)) \<and>
         even (length (messages (fold submit_vite ts v)))"
  using assms by (induction ts arbitrary: v) (simp_all add: vite_turn_alternates)

text \<open>
  Claim C7, as the code has it. After any sequence of submits, each run to completion
  before the next begins, the roles of the transcript alternate \<^verbatim>\<open>"user"\<close>, \<^verbatim>\<open>"ai"\<close>
  from index 0 and the number of entries is even, in each of the three components; by
  \<open>alternates_begins\<close> such a transcript, when not empty, begins with a user entry
  followed by its assistant entry. In the two streaming components the same holds in
  every reachable state, whatever the order of the events.
\<close>

theorem roles_alternate:
  "alternates (transcript (fold (submit_chat decode) ts init_chat)) \<and>
   even (length (transcript (fold (submit_chat decode) ts init_chat))) \<and>
   alternates (messages (fold (submit_stream decode) ts init_stream)) \<and>
   even (length (messages (fold (submit_stream decode) ts init_stream))) \<and>
   alternates (messages (fold submit_vite vts init_vite)) \<and>
   even (length (messages (fold submit_vite vts init_vite))) \<and>
   alternates (transcript (run_chat decode es init_chat)) \<and>
   even (length (transcript (run_chat decode es init_chat))) \<and>
   alternates (messages (run_stream decode es init_stream)) \<and>
   even (length (messages (run_stream decode es init_stream)))"
proof -
  have "wf_chat (fold (submit_chat decode) ts init_chat)"
    by (rule wf_chat_turns [OF wf_chat_init])
  then have a: "alternates (transcript (fold (submit_chat decode) ts init_chat))"
    "even (length (transcript (fold (submit_chat decode) ts init_chat)))"
    by (simp_all add: wf_chat_def good_store_def transcript_def)
  have "inv_stream (fold (submit_stream decode) ts init_stream)"
    by (rule inv_stream_turns [OF inv_stream_init])
  then have b: "alternates (messages (fold (submit_stream decode) ts init_stream))"
    "even (length (messages (fold (submit_stream decode) ts init_stream)))"
    by (simp_all add: inv_stream_def)
  have c: "alternates (messages (fold submit_vite vts init_vite)) \<and>
      even (length (messages (fold submit_vite vts init_vite)))"
    by (rule vite_turns_alternate) (simp add: init_vite_def)
  have "wf_chat (run_chat decode es init_chat)" by (rule wf_chat_reachable)
  then have d: "alternates (transcript (run_chat decode es init_chat))"
    "even (length (transcript (run_chat decode es init_chat)))"
    by (simp_all add: wf_chat_def good_store_def transcript_def)
  have "inv_stream (run_stream decode es init_stream)" by (rule inv_stream_reachable)
  then have e: "alternates (messages (run_stream decode es init_stream))"
    "even (length (messages (run_stream decode es init_stream)))"
    by (simp_all add: inv_stream_def)
  from a b c d e show ?thesis by blast
qed

theorem roles_alternate_witness:
  "map role (transcript (fold (submit_chat (\<lambda>c. c)) [(''a'', [''x'']), ([], []), (''b'', [''y'', ''z''])] init_chat)) =
     [''user'', ''ai'', ''user'', ''ai''] \<and>
   map role (messages (fold (submit_stream (\<lambda>c. c)) [(''a'', [''x'']), ([], [])] init_stream)) =
     [''user'', ''ai'', ''user'', ''ai''] \<and>
   map role (messages (fold submit_vite [(''a'', ''x''), ([], ''y''), (''b'', ''z'')] init_vite)) =
     [''user'', ''ai'', ''user'', ''ai''] \<and>
   map role (transcript (run_chat (\<lambda>c. c)
     [SetInput ''a'', Click, SetInput ''b'', Click, FetchOk 0, ReadChunk 0 ''x''] init_chat)) =
     [''user'', ''ai'', ''user'', ''ai''] \<and>
   map role (messages (run_stream (\<lambda>c. c)
     [SetInput ''a'', Click, SetInput ''b'', Click, FetchOk 0, ReadChunk 0 ''x''] init_stream)) =
     [''user'', ''ai'', ''user'', ''ai'']"
  using roles_alternate [of "\<lambda>c. c" "[(''a'', [''x'']), ([], []), (''b'', [''y'', ''z''])]"
      "[(''a'', ''x''), ([], ''y''), (''b'', ''z'')]"
      "[SetInput ''a'', Click, SetInput ''b'', Click, FetchOk 0, ReadChunk 0 ''x'']"]
  by (simp add: init_chat_def init_stream_def init_vite_def transcript_def step_chat_def
      submit_chat_def submit_stream_def submit_vite_def turn_events_def vite_turn_events_def
      chunk_events_def sendMessage_chat_def sendMessage_stream_def sendMessage_vite_def
      task_at_def render_chat_def render_stream_def setLastContent_def replaceLast_def Let_def)

text \<open>
  C7 as stated says of every reachable transcript that it begins with a user entry
  followed at once by its assistant entry. In the whole-response component the
  transcript between the submit and the reply is the user entry alone.
\<close>

theorem unpaired_user_entry_counterexample:
  "messages (run_vite [VSetInput ''hi'', VClick] init_vite) = [\<lparr>role = ''user'', content = ''hi''\<rparr>] \<and>
   take 2 (map role (messages (run_vite [VSetInput ''hi'', VClick] init_vite))) \<noteq> [''user'', ''ai'']"
  by (simp add: init_vite_def sendMessage_vite_def)

section \<open>The frame of a state update\<close>

lemma changes_last_only_append: "changes_last_only t (t @ new)"
  by (simp add: changes_last_only_def)

lemma changes_last_only_refl: "changes_last_only t t"
  by (simp add: changes_last_only_def)

lemma changes_last_only_edit:
  assumes "t \<noteq> []"
  shows "changes_last_only t (t[length t - 1 := (t ! (length t - 1))\<lparr>content := x\<rparr>])"
  using assms
  by (simp add: changes_last_only_def butlast_list_update last_list_update last_conv_nth)

lemma changes_last_only_nth:
  assumes "changes_last_only t t'"
  shows "length t \<le> length t'" and "Suc j < length t \<Longrightarrow> t' ! j = t ! j"
proof -
  from assms consider (app) "take (length t) t' = t"
    | (edit) "t \<noteq> []" "length t' = length t" "butlast t' = butlast t"
    by (auto simp: changes_last_only_def)
  then show "length t \<le> length t'"
  proof cases
    case app
    then have "length (take (length t) t') = length t" by simp
    then show ?thesis by simp
  next
    case edit
    then show ?thesis by simp
  qed
  assume j: "Suc j < length t"
  from assms consider (app) "take (length t) t' = t"
    | (edit) "t \<noteq> []" "length t' = length t" "butlast t' = butlast t"
    by (auto simp: changes_last_only_def)
  then show "t' ! j = t ! j"
  proof cases
    case app
    from j have "t ! j = take (length t) t' ! j" by (simp only: app)
    with j show ?thesis by simp
  next
    case edit
    from j edit(2) have "t' ! j = butlast t' ! j" "t ! j = butlast t ! j"
      by (simp_all add: nth_butlast)
    with edit(3) show ?thesis by simp
  qed
qed

lemma vite_step_frame: "changes_last_only (messages v) (messages (step_vite e v))"
  by (cases e) (simp_all add: sendMessage_vite_def changes_last_only_refl changes_last_only_append)


lemma call_stream_frame:
  assumes "alternates prev \<and> even (length prev)"
  shows "changes_last_only prev (call_stream txt u prev)"
proof (cases u)
  case (AppendTurn s)
  then show ?thesis by (simp add: changes_last_only_append)
next
  case (WriteLast i)
  from assms have "replaceLast (txt i) prev =
      (if prev = [] then prev else prev[length prev - 1 := (prev ! (length prev - 1))\<lparr>content := txt i\<rparr>])"
    by (intro replaceLast_alt) simp_all
  with WriteLast changes_last_only_edit [of prev "txt i"] show ?thesis
    by (simp add: changes_last_only_refl)
qed

lemma fold_take_Suc:
  "fold f (take (Suc k) q) x = (if k < length q then f (q ! k) (fold f (take k q) x) else fold f (take k q) x)"
  by (simp add: take_Suc_conv_app_nth)

text \<open>The queued functions called one by one, each on what the one before returned.\<close>

lemma stream_calls_frame:
  assumes "alternates prev \<and> even (length prev)"
  shows "changes_last_only (fold (call_stream txt) (take k q) prev)
           (fold (call_stream txt) (take (Suc k) q) prev)"
proof -
  from fold_call_stream_paired [OF assms, of "txt" "take k q"]
  have "alternates (fold (call_stream txt) (take k q) prev) \<and>
      even (length (fold (call_stream txt) (take k q) prev))" .
  from call_stream_frame [OF this, of "txt"] show ?thesis
    by (simp add: fold_take_Suc changes_last_only_refl)
qed

text \<open>The functions of the read loop, all called, change at most the last content.\<close>

lemma writes_frame:
  assumes "alternates prev \<and> even (length prev)" and "list_all is_write q"
  shows "changes_last_only prev (fold (call_stream txt) q prev)"
    and "length (fold (call_stream txt) q prev) = length prev"
proof -
  show len: "length (fold (call_stream txt) q prev) = length prev"
    by (rule fold_writes_length [OF assms(2)])
  show "changes_last_only prev (fold (call_stream txt) q prev)"
  proof (cases "q = [] \<or> prev = []")
    case True
    with len show ?thesis by (auto simp: changes_last_only_refl)
  next
    case False
    then obtain pre m where p: "prev = pre @ [m]" by (metis rev_exhaust)
    from assms(1) False have "role (prev ! (length prev - 1)) = ''ai''"
      by (intro alternates_last_ai) simp_all
    with p have "role m = ''ai''" by simp
    with fold_writes [OF assms(2), of "txt" pre m] False p show ?thesis
      by (simp add: changes_last_only_def)
  qed
qed

lemma chat_prefix_render:
  assumes wf: "wf_chat c"
  shows "transcript (render_chat (c\<lparr>pending := take k (pending c)\<rparr>)) =
         fold (call_stream (aiText c)) (take k (pending c)) (transcript c)"
proof -
  let ?c = "c\<lparr>pending := take k (pending c)\<rparr>"
  from wf have g: "good_store (messages ?c, heap ?c)"
    and "pending c = [] \<or> messages c \<noteq> []"
    by (simp_all add: wf_chat_def)
  then have "messages ?c \<noteq> [] \<or> pending ?c = [] \<or> \<not> is_write (hd (pending ?c))" by auto
  from render_chat_ok(1) [OF g this]
  have "transcript (render_chat ?c) = messages (render_stream (view ?c))"
    by (metis view_simps(2))
  then show ?thesis by (simp add: view_def transcript_def)
qed

lemma chat_transcript_paired:
  assumes "wf_chat c"
  shows "alternates (transcript c) \<and> even (length (transcript c))"
  using assms by (simp add: wf_chat_def good_store_def transcript_def)

lemma chat_render_frame:
  assumes wf: "wf_chat c"
  shows "changes_last_only (transcript c) (transcript (render_chat c))"
    and "length (transcript (render_chat c)) = length (transcript c)"
proof -
  from wf have w: "list_all is_write (pending c)" by (simp add: wf_chat_def)
  have "transcript (render_chat c) = fold (call_stream (aiText c)) (pending c) (transcript c)"
    using chat_render_transcript [OF wf] by simp
  with writes_frame [OF chat_transcript_paired [OF wf] w, of "aiText c"]
  show "changes_last_only (transcript c) (transcript (render_chat c))"
    and "length (transcript (render_chat c)) = length (transcript c)"
    by simp_all
qed

text \<open>What one event does to the rendered transcript of the store-based component.\<close>

lemma chat_event_frame:
  assumes wf: "wf_chat c"
  shows "transcript (step_chat decode e c) = transcript c \<or>
         transcript (step_chat decode e c) = transcript (render_chat c) \<or>
         (e = Click \<and> (\<exists>new. transcript (step_chat decode e c) = transcript (render_chat c) @ new))"
proof (cases "e = Click \<and> input c = []")
  case True
  then show ?thesis by (simp add: step_chat_def sendMessage_chat_def)
next
  case False
  then have g: "e = Click \<longrightarrow> input c \<noteq> []" by simp
  have v: "transcript (step_chat decode e c) = messages (step_stream decode e (view c))"
    using chat_step(1) [OF wf g, of decode] by (metis view_simps(2))
  have r: "transcript (render_chat c) = fold (call_stream (aiText c)) (pending c) (transcript c)"
    using chat_render_transcript [OF wf] by simp
  show ?thesis
    unfolding v r by (cases e) (simp_all add: sendMessage_stream_def)
qed

lemma stream_event_frame:
  "messages (step_stream decode e st) = messages st \<or>
   messages (step_stream decode e st) = messages (render_stream st) \<or>
   (e = Click \<and> (\<exists>new. messages (step_stream decode e st) = messages (render_stream st) @ new))"
  by (cases e) (simp_all add: sendMessage_stream_def)

lemma frame_after_render:
  assumes r: "changes_last_only t r" "length r = length t"
    and e: "t' = t \<or> t' = r \<or> (click \<and> (\<exists>new. t' = r @ new))"
  shows "length t \<le> length t'" and "Suc j < length t \<Longrightarrow> t' ! j = t ! j"
    and "(click \<longrightarrow> r = t) \<longrightarrow> changes_last_only t t'"
proof -
  from e r(1) show "(click \<longrightarrow> r = t) \<longrightarrow> changes_last_only t t'"
    by (auto simp: changes_last_only_refl changes_last_only_append)
  from e r(2) show "length t \<le> length t'" by auto
  assume j: "Suc j < length t"
  with changes_last_only_nth(2) [OF r(1)] have "r ! j = t ! j" by simp
  with e j r(2) show "t' ! j = t ! j" by (auto simp: nth_append)
qed

text \<open>
  Claim C8. In every reachable state of the two streaming components, the queued
  functions, called one by one at a render, each either put entries after the
  transcript or change at most the content of its last entry; called from the rendered
  transcript \<open>t\<close> they end in the transcript \<open>r\<close> of the next render. An event leaves the
  rendered transcript as it is, or makes it \<open>r\<close>, or (a click) puts entries after \<open>r\<close>;
  unless it is a click that finds functions queued, it is itself one such update. In
  the whole-response component every event puts entries after the transcript or leaves
  it. So in all three the length of the transcript never decreases, and every entry but
  the last is the same before and after every event.
\<close>

theorem only_last_entry_changes:
  fixes decode :: "'c \<Rightarrow> string" and es :: "'c event list" and e :: "'c event"
    and ves :: "vite_event list" and ve :: vite_event and k :: nat
  defines "c \<equiv> run_chat decode es init_chat"
    and "st \<equiv> run_stream decode es init_stream"
  defines "t \<equiv> transcript c"
    and "r \<equiv> transcript (render_chat c)"
    and "t' \<equiv> transcript (run_chat decode (es @ [e]) init_chat)"
    and "u \<equiv> messages st"
    and "q \<equiv> messages (render_stream st)"
    and "u' \<equiv> messages (run_stream decode (es @ [e]) init_stream)"
    and "w \<equiv> messages (run_vite ves init_vite)"
    and "w' \<equiv> messages (run_vite (ves @ [ve]) init_vite)"
  shows "changes_last_only
           (transcript (render_chat (c\<lparr>pending := take k (pending c)\<rparr>)))
           (transcript (render_chat (c\<lparr>pending := take (Suc k) (pending c)\<rparr>))) \<and>
         transcript (render_chat (c\<lparr>pending := take 0 (pending c)\<rparr>)) = t \<and>
         transcript (render_chat (c\<lparr>pending := take (length (pending c)) (pending c)\<rparr>)) = r \<and>
         (t' = t \<or> t' = r \<or> (e = Click \<and> (\<exists>new. t' = r @ new))) \<and>
         ((e = Click \<longrightarrow> pending c = []) \<longrightarrow> changes_last_only t t') \<and>
         length t \<le> length t' \<and> (\<forall>j. Suc j < length t \<longrightarrow> t' ! j = t ! j) \<and>
         changes_last_only
           (fold (call_stream (aiText st)) (take k (pending st)) u)
           (fold (call_stream (aiText st)) (take (Suc k) (pending st)) u) \<and>
         fold (call_stream (aiText st)) (take (length (pending st)) (pending st)) u = q \<and>
         (u' = u \<or> u' = q \<or> (e = Click \<and> (\<exists>new. u' = q @ new))) \<and>
         ((e = Click \<longrightarrow> pending st = []) \<longrightarrow> changes_last_only u u') \<and>
         length u \<le> length u' \<and> (\<forall>j. Suc j < length u \<longrightarrow> u' ! j = u ! j) \<and>
         changes_last_only w w' \<and> length w \<le> length w' \<and> (\<forall>j. Suc j < length w \<longrightarrow> w' ! j = w ! j)"
proof -
  have wf: "wf_chat c" unfolding c_def by (rule wf_chat_reachable)
  have inv: "inv_stream st" unfolding st_def by (rule inv_stream_reachable)
  then have up: "alternates u \<and> even (length u)" and wq: "list_all is_write (pending st)"
    by (simp_all add: inv_stream_def u_def)
  have t'e: "t' = transcript (step_chat decode e c)"
    by (simp add: t'_def c_def run_chat_append)
  have u'e: "u' = messages (step_stream decode e st)"
    by (simp add: u'_def st_def run_stream_append)
  have a1: "changes_last_only
           (transcript (render_chat (c\<lparr>pending := take k (pending c)\<rparr>)))
           (transcript (render_chat (c\<lparr>pending := take (Suc k) (pending c)\<rparr>)))"
    unfolding chat_prefix_render [OF wf]
    by (rule stream_calls_frame [OF chat_transcript_paired [OF wf]])
  have a2: "transcript (render_chat (c\<lparr>pending := take 0 (pending c)\<rparr>)) = t"
    unfolding chat_prefix_render [OF wf] t_def by simp
  have a3: "transcript (render_chat (c\<lparr>pending := take (length (pending c)) (pending c)\<rparr>)) = r"
    unfolding chat_prefix_render [OF wf] r_def using chat_render_transcript [OF wf] by simp
  have a4: "t' = t \<or> t' = r \<or> (e = Click \<and> (\<exists>new. t' = r @ new))"
    unfolding t'e t_def r_def by (rule chat_event_frame [OF wf])
  note cr = chat_render_frame [OF wf, folded t_def r_def]
  note a5 = frame_after_render [OF cr a4]
  have "pending c = [] \<longrightarrow> r = t"
    by (simp add: r_def t_def render_chat_idle)
  with a5(3) have a6: "(e = Click \<longrightarrow> pending c = []) \<longrightarrow> changes_last_only t t'" by blast
  have b1: "changes_last_only
           (fold (call_stream (aiText st)) (take k (pending st)) u)
           (fold (call_stream (aiText st)) (take (Suc k) (pending st)) u)"
    by (rule stream_calls_frame [OF up])
  have b2: "fold (call_stream (aiText st)) (take (length (pending st)) (pending st)) u = q"
    by (simp add: q_def u_def)
  have b3: "u' = u \<or> u' = q \<or> (e = Click \<and> (\<exists>new. u' = q @ new))"
    unfolding u'e u_def q_def by (rule stream_event_frame)
  have sr: "changes_last_only u q" "length q = length u"
    using writes_frame [OF up wq, of "aiText st"] by (simp_all add: q_def u_def)
  note b4 = frame_after_render [OF sr b3]
  have "pending st = [] \<longrightarrow> q = u"
    by (simp add: q_def u_def)
  with b4(3) have b5: "(e = Click \<longrightarrow> pending st = []) \<longrightarrow> changes_last_only u u'" by blast
  have v1: "changes_last_only w w'"
    unfolding w_def w'_def using vite_step_frame [of "run_vite ves init_vite" ve]
    by (simp add: run_vite_append)
  note v2 = changes_last_only_nth [OF v1]
  from a1 a2 a3 a4 a5(1,2) a6 b1 b2 b3 b4(1,2) b5 v1 v2 show ?thesis by blast
qed

theorem only_last_entry_changes_witness:
  "transcript (run_chat (\<lambda>c. c) [SetInput ''hi'', Click, FetchOk 0, ReadChunk 0 ''He'', ReadChunk 0 ''llo''] init_chat) =
     [\<lparr>role = ''user'', content = ''hi''\<rparr>, \<lparr>role = ''ai'', content = []\<rparr>] \<and>
   transcript (run_chat (\<lambda>c. c) ([SetInput ''hi'', Click, FetchOk 0, ReadChunk 0 ''He'', ReadChunk 0 ''llo''] @ [Render]) init_chat) =
     [\<lparr>role = ''user'', content = ''hi''\<rparr>, \<lparr>role = ''ai'', content = ''Hello''\<rparr>] \<and>
   messages (run_stream (\<lambda>c. c) [SetInput ''hi'', Click, FetchOk 0, ReadChunk 0 ''He'', ReadChunk 0 ''llo''] init_stream) =
     [\<lparr>role = ''user'', content = ''hi''\<rparr>, \<lparr>role = ''ai'', content = []\<rparr>] \<and>
   messages (run_stream (\<lambda>c. c) ([SetInput ''hi'', Click, FetchOk 0, ReadChunk 0 ''He'', ReadChunk 0 ''llo''] @ [Render]) init_stream) =
     [\<lparr>role = ''user'', content = ''hi''\<rparr>, \<lparr>role = ''ai'', content = ''Hello''\<rparr>] \<and>
   messages (run_vite [VSetInput ''hi'', VClick, VFetchOk 0] init_vite) =
     [\<lparr>role = ''user'', content = ''hi''\<rparr>] \<and>
   messages (run_vite ([VSetInput ''hi'', VClick, VFetchOk 0] @ [VJsonOk 0 ''hello'']) init_vite) =
     [\<lparr>role = ''user'', content = ''hi''\<rparr>, \<lparr>role = ''ai'', content = ''hello''\<rparr>] \<and>
   changes_last_only
     [\<lparr>role = ''user'', content = ''hi''\<rparr>, \<lparr>role = ''ai'', content = []\<rparr>]
     [\<lparr>role = ''user'', content = ''hi''\<rparr>, \<lparr>role = ''ai'', content = ''Hello''\<rparr>] \<and>
   changes_last_only
     [\<lparr>role = ''user'', content = ''hi''\<rparr>]
     [\<lparr>role = ''user'', content = ''hi''\<rparr>, \<lparr>role = ''ai'', content = ''hello''\<rparr>]"
  using only_last_entry_changes [where decode = "\<lambda>c. c"
      and es = "[SetInput ''hi'', Click, FetchOk 0, ReadChunk 0 ''He'', ReadChunk 0 ''llo'']"
      and e = Render and k = 1
      and ves = "[VSetInput ''hi'', VClick, VFetchOk 0]" and ve = "VJsonOk 0 ''hello''"]
  by (simp add: init_chat_def init_stream_def init_vite_def transcript_def step_chat_def
      sendMessage_chat_def sendMessage_stream_def sendMessage_vite_def
      task_at_def render_chat_def render_stream_def setLastContent_def replaceLast_def Let_def
      changes_last_only_def)

section \<open>Failures\<close>

lemma stream_failure:
  fixes st :: stream_app and decode :: "'c \<Rightarrow> string" and r :: "'c list option" and s :: string
  defines "st' \<equiv> run_stream decode (SetInput s # Click # failing_events (length (tasks st)) r) st"
  shows "messages st' = messages (render_stream st) @ [\<lparr>role = ''user'', content = s\<rparr>,
            \<lparr>role = ''ai'', content = (case r of None \<Rightarrow> [] | Some cs \<Rightarrow> concat (map decode cs))\<rparr>]"
    and "input st' = []"
    and "tasks st' = tasks st @ [Failed]"
proof -
  let ?i = "length (tasks st)"
  have "messages st' = messages (render_stream st) @ [\<lparr>role = ''user'', content = s\<rparr>,
            \<lparr>role = ''ai'', content = (case r of None \<Rightarrow> [] | Some cs \<Rightarrow> concat (map decode cs))\<rparr>] \<and>
        input st' = [] \<and> tasks st' = tasks st @ [Failed]"
  proof (cases r)
    case None
    then show ?thesis by (simp add: st'_def sendMessage_stream_def task_at_def)
  next
    case (Some cs)
    let ?x = "run_stream decode [SetInput s, Click, FetchOk ?i] st"
    note b = stream_begin [where st = st and decode = decode and s = s]
    have t: "task_at ?x ?i = Some Reading" using b(2) by (simp add: task_at_def)
    have m: "messages ?x = (messages (render_stream st) @ [\<lparr>role = ''user'', content = s\<rparr>]) @
        [\<lparr>role = ''ai'', content = aiText ?x ?i\<rparr>]"
      using b(1) b(6) by simp
    have e: "(ReadFail ?i :: 'c event, Failed) = (ReadDone ?i, Finished) \<or>
        (ReadFail ?i :: 'c event, Failed) = (ReadFail ?i, Failed)" by simp
    note f = stream_finish [OF t b(5) m e, of decode cs]
    have eq: "st' = run_stream decode (chunk_events ?i cs @ [ReadFail ?i, Render]) ?x"
      using Some by (simp add: st'_def run_stream_append del: step_stream.simps)
    show ?thesis
      unfolding eq using f(1,2,3) b(2,3,6) Some by simp
  qed
  then show "messages st' = messages (render_stream st) @ [\<lparr>role = ''user'', content = s\<rparr>,
            \<lparr>role = ''ai'', content = (case r of None \<Rightarrow> [] | Some cs \<Rightarrow> concat (map decode cs))\<rparr>]"
    and "input st' = []"
    and "tasks st' = tasks st @ [Failed]"
    by simp_all
qed

lemma chat_failure:
  fixes c :: chat_app and decode :: "'c \<Rightarrow> string" and r :: "'c list option" and s :: string
  defines "c' \<equiv> run_chat decode (SetInput s # Click # failing_events (length (tasks c)) r) c"
  assumes wf: "wf_chat c" and ne: "s \<noteq> []"
  shows "transcript c' = transcript (render_chat c) @ [\<lparr>role = ''user'', content = s\<rparr>,
            \<lparr>role = ''ai'', content = (case r of None \<Rightarrow> [] | Some cs \<Rightarrow> concat (map decode cs))\<rparr>]"
    and "input c' = []"
    and "tasks c' = tasks c @ [Failed]"
    and "fault c' = None"
proof -
  let ?es = "SetInput s # Click # failing_events (length (tasks c)) r"
  have g: "clicks_nonempty ?es (input c)" using ne by simp
  note f = chat_run_fields [OF wf g, of decode, folded c'_def]
  note sf = stream_failure [where st = "view c" and decode = decode and r = r and s = s,
      unfolded view_simps]
  from f(1) sf(1) chat_render_transcript [OF wf]
  show "transcript c' = transcript (render_chat c) @ [\<lparr>role = ''user'', content = s\<rparr>,
            \<lparr>role = ''ai'', content = (case r of None \<Rightarrow> [] | Some cs \<Rightarrow> concat (map decode cs))\<rparr>]"
    by (simp only:)
  from f(3) sf(2) show "input c' = []" by (simp only:)
  from f(2) sf(3) show "tasks c' = tasks c @ [Failed]" by (simp only:)
  have "wf_chat c'" unfolding c'_def by (rule wf_chat_run [OF wf])
  then show "fault c' = None" by (simp add: wf_chat_def)
qed

lemma vite_failure:
  fixes v :: vite_app and s :: string and b :: bool
  defines "v' \<equiv> run_vite (VSetInput s # VClick # vite_failing_events (length (tasks v)) b) v"
  assumes ne: "s \<noteq> []"
  shows "messages v' = messages v @ [\<lparr>role = ''user'', content = s\<rparr>]"
    and "input v' = []"
    and "tasks v' = tasks v @ [VFailed]"
  using ne by (cases b; simp add: v'_def sendMessage_vite_def task_at_def)+

text \<open>
  Claim C9, as the code has it. A non-empty \<open>s\<close> is submitted and the invocation
  fails. Then nothing repairs the transcript and the input field stays empty. In
  the two streaming components the transcript ends with the user entry and the assistant
  entry, the latter empty when \<^verbatim>\<open>fetch\<close> was rejected and holding the chunks read so
  far when a read was rejected. In the whole-response component it ends with the user
  entry; there is no assistant entry for the turn. The invocation is rejected for good:
  no event delivered to it changes the state again.
\<close>

theorem failure_is_unhandled:
  fixes decode :: "'c \<Rightarrow> string" and es :: "'c event list" and r :: "'c list option"
    and st :: stream_app and v :: vite_app and s :: string and b :: bool
  defines "c \<equiv> run_chat decode es init_chat"
  defines "c' \<equiv> run_chat decode (SetInput s # Click # failing_events (length (tasks c)) r) c"
    and "st' \<equiv> run_stream decode (SetInput s # Click # failing_events (length (tasks st)) r) st"
    and "v' \<equiv> run_vite (VSetInput s # VClick # vite_failing_events (length (tasks v)) b) v"
    and "got \<equiv> (case r of None \<Rightarrow> [] | Some cs \<Rightarrow> concat (map decode cs))"
  assumes "s \<noteq> []"
  shows "transcript c' = transcript (run_chat decode (es @ [Render]) init_chat) @
           [\<lparr>role = ''user'', content = s\<rparr>, \<lparr>role = ''ai'', content = got\<rparr>] \<and>
         input c' = [] \<and> tasks c' = tasks c @ [Failed] \<and> fault c' = None \<and>
         (\<forall>e. event_task e = Some (length (tasks c)) \<longrightarrow> step_chat decode e c' = c') \<and>
         messages st' = messages (render_stream st) @
           [\<lparr>role = ''user'', content = s\<rparr>, \<lparr>role = ''ai'', content = got\<rparr>] \<and>
         input st' = [] \<and> tasks st' = tasks st @ [Failed] \<and>
         (\<forall>e. event_task e = Some (length (tasks st)) \<longrightarrow> step_stream decode e st' = st') \<and>
         messages v' = messages v @ [\<lparr>role = ''user'', content = s\<rparr>] \<and>
         input v' = [] \<and> tasks v' = tasks v @ [VFailed] \<and>
         (\<forall>e. vite_event_task e = Some (length (tasks v)) \<longrightarrow> step_vite e v' = v')"
proof -
  have wf: "wf_chat c" unfolding c_def by (rule wf_chat_reachable)
  have rr: "transcript (run_chat decode (es @ [Render]) init_chat) = transcript (render_chat c)"
    unfolding c_def by (rule chat_rendered)
  note cf = chat_failure [OF wf assms(6), of decode r, folded c'_def got_def, folded rr]
  note sf = stream_failure [where st = st and decode = decode and r = r and s = s, folded st'_def got_def]
  note vf = vite_failure [OF assms(6), of v b, folded v'_def]
  have ci: "\<forall>e. event_task e = Some (length (tasks c)) \<longrightarrow> step_chat decode e c' = c'"
  proof (intro allI impI)
    fix e :: "'c event" assume "event_task e = Some (length (tasks c))"
    moreover have "task_at c' (length (tasks c)) = Some Failed"
      by (simp add: task_at_def cf(3))
    ultimately show "step_chat decode e c' = c'" by (simp add: chat_idle)
  qed
  have si: "\<forall>e. event_task e = Some (length (tasks st)) \<longrightarrow> step_stream decode e st' = st'"
  proof (intro allI impI)
    fix e :: "'c event" assume "event_task e = Some (length (tasks st))"
    moreover have "task_at st' (length (tasks st)) = Some Failed"
      by (simp add: task_at_def sf(3))
    ultimately show "step_stream decode e st' = st'" by (simp add: stream_idle)
  qed
  have vi: "\<forall>e. vite_event_task e = Some (length (tasks v)) \<longrightarrow> step_vite e v' = v'"
  proof (intro allI impI)
    fix e assume "vite_event_task e = Some (length (tasks v))"
    moreover have "task_at v' (length (tasks v)) = Some VFailed"
      by (simp add: task_at_def vf(3))
    ultimately show "step_vite e v' = v'" by (simp add: vite_idle)
  qed
  from cf sf vf ci si vi show ?thesis by blast
qed

theorem failure_is_unhandled_witness:
  "''hi'' \<noteq> [] \<and>
   transcript (run_chat (\<lambda>c. c) (SetInput ''hi'' # Click # failing_events 0 (Some [''He''])) init_chat) =
     [\<lparr>role = ''user'', content = ''hi''\<rparr>, \<lparr>role = ''ai'', content = ''He''\<rparr>] \<and>
   input (run_chat (\<lambda>c. c) (SetInput ''hi'' # Click # failing_events 0 (Some [''He''])) init_chat) = [] \<and>
   tasks (run_chat (\<lambda>c. c) (SetInput ''hi'' # Click # failing_events 0 (Some [''He''])) init_chat) = [Failed] \<and>
   messages (run_stream (\<lambda>c. c) (SetInput ''hi'' # Click # failing_events 0 (Some [''He''])) init_stream) =
     [\<lparr>role = ''user'', content = ''hi''\<rparr>, \<lparr>role = ''ai'', content = ''He''\<rparr>] \<and>
   input (run_stream (\<lambda>c. c) (SetInput ''hi'' # Click # failing_events 0 (Some [''He''])) init_stream) = [] \<and>
   tasks (run_stream (\<lambda>c. c) (SetInput ''hi'' # Click # failing_events 0 (Some [''He''])) init_stream) = [Failed] \<and>
   messages (run_vite (VSetInput ''hi'' # VClick # vite_failing_events 0 False) init_vite) =
     [\<lparr>role = ''user'', content = ''hi''\<rparr>] \<and>
   input (run_vite (VSetInput ''hi'' # VClick # vite_failing_events 0 False) init_vite) = [] \<and>
   tasks (run_vite (VSetInput ''hi'' # VClick # vite_failing_events 0 False) init_vite) = [VFailed]"
proof -
  have ne: "''hi'' \<noteq> []" by simp
  have i: "messages (render_stream init_stream) = []" by (simp add: init_stream_def)
  from failure_is_unhandled [where s = "''hi''" and decode = "\<lambda>c. c" and es = "[]"
      and r = "Some [''He'']" and st = init_stream and v = init_vite and b = False, OF ne]
  show ?thesis
    unfolding append_Nil init_rendered run_chat_Nil init_transcripts init_tasks i list.size
    by simp
qed

text \<open>
  C9 as stated keeps a paired assistant entry in the transcript after the failure.
  In the whole-response component, after a rejected \<^verbatim>\<open>fetch\<close>, the transcript is the
  user entry alone.
\<close>

theorem whole_response_failure_counterexample:
  "''hi'' \<noteq> [] \<and>
   messages (run_vite (VSetInput ''hi'' # VClick # vite_failing_events 0 True) init_vite) =
     [\<lparr>role = ''user'', content = ''hi''\<rparr>] \<and>
   \<lparr>role = ''ai'', content = []\<rparr> \<notin>
     set (messages (run_vite (VSetInput ''hi'' # VClick # vite_failing_events 0 True) init_vite))"
  by (simp add: init_vite_def sendMessage_vite_def task_at_def)

section \<open>In-place update and replacement\<close>

lemma turn_events_nonempty_clicks:
  "s \<noteq> [] \<Longrightarrow> clicks_nonempty es inp \<Longrightarrow> clicks_nonempty (es @ turn_events i s cs) inp"
  by (induction es inp rule: clicks_nonempty.induct) (simp_all add: turn_events_clicks)

text \<open>
  Claim C10. Let no click of the events \<open>es\<close> find the input field empty; a
  submit of a non-empty input with the chunks of its response is such a list, and so is
  any interleaving of such submits, with renders wherever React makes them. Then the
  component that writes the content field of the last object in place and the component
  that replaces the last element by a new object go through the same transcripts, one
  after each event, and end with the same transcript; the in-place update never throws.
\<close>

theorem in_place_and_replacement_agree:
  assumes "clicks_nonempty es []"
  shows "map transcript (trace (step_chat decode) es init_chat) =
           map messages (trace (step_stream decode) es init_stream) \<and>
         transcript (run_chat decode es init_chat) = messages (run_stream decode es init_stream) \<and>
         fault (run_chat decode es init_chat) = None"
proof -
  have "clicks_nonempty es (input init_chat)"
    using assms by (simp add: init_chat_def)
  from view_run [OF wf_chat_init this, of decode]
  have "map transcript (trace (step_chat decode) es init_chat) =
           map messages (trace (step_stream decode) es init_stream)"
    and "view (run_chat decode es init_chat) = run_stream decode es init_stream"
    by (simp_all add: view_init)
  moreover have "fault (run_chat decode es init_chat) = None"
    using wf_chat_reachable [of decode es] by (simp add: wf_chat_def)
  ultimately show ?thesis by (metis view_simps(2))
qed

theorem in_place_and_replacement_agree_witness:
  "clicks_nonempty (turn_events 0 ''hi'' [''He'', ''llo'']) [] \<and>
   map transcript (trace (step_chat (\<lambda>c. c)) (turn_events 0 ''hi'' [''He'', ''llo'']) init_chat) =
     [ [], [\<lparr>role = ''user'', content = ''hi''\<rparr>, \<lparr>role = ''ai'', content = []\<rparr>],
      [\<lparr>role = ''user'', content = ''hi''\<rparr>, \<lparr>role = ''ai'', content = []\<rparr>],
      [\<lparr>role = ''user'', content = ''hi''\<rparr>, \<lparr>role = ''ai'', content = []\<rparr>],
      [\<lparr>role = ''user'', content = ''hi''\<rparr>, \<lparr>role = ''ai'', content = []\<rparr>],
      [\<lparr>role = ''user'', content = ''hi''\<rparr>, \<lparr>role = ''ai'', content = []\<rparr>],
      [\<lparr>role = ''user'', content = ''hi''\<rparr>, \<lparr>role = ''ai'', content = ''Hello''\<rparr>]] \<and>
   map messages (trace (step_stream (\<lambda>c. c)) (turn_events 0 ''hi'' [''He'', ''llo'']) init_stream) =
     [ [], [\<lparr>role = ''user'', content = ''hi''\<rparr>, \<lparr>role = ''ai'', content = []\<rparr>],
      [\<lparr>role = ''user'', content = ''hi''\<rparr>, \<lparr>role = ''ai'', content = []\<rparr>],
      [\<lparr>role = ''user'', content = ''hi''\<rparr>, \<lparr>role = ''ai'', content = []\<rparr>],
      [\<lparr>role = ''user'', content = ''hi''\<rparr>, \<lparr>role = ''ai'', content = []\<rparr>],
      [\<lparr>role = ''user'', content = ''hi''\<rparr>, \<lparr>role = ''ai'', content = []\<rparr>],
      [\<lparr>role = ''user'', content = ''hi''\<rparr>, \<lparr>role = ''ai'', content = ''Hello''\<rparr>]] \<and>
   transcript (run_chat (\<lambda>c. c) (turn_events 0 ''hi'' [''He'', ''llo'']) init_chat) =
     [\<lparr>role = ''user'', content = ''hi''\<rparr>, \<lparr>role = ''ai'', content = ''Hello''\<rparr>] \<and>
   messages (run_stream (\<lambda>c. c) (turn_events 0 ''hi'' [''He'', ''llo'']) init_stream) =
     [\<lparr>role = ''user'', content = ''hi''\<rparr>, \<lparr>role = ''ai'', content = ''Hello''\<rparr>] \<and>
   fault (run_chat (\<lambda>c. c) (turn_events 0 ''hi'' [''He'', ''llo'']) init_chat) = None"
  using in_place_and_replacement_agree [of "turn_events 0 ''hi'' [''He'', ''llo'']" "\<lambda>c. c"]
  by (simp add: init_chat_def init_stream_def transcript_def step_chat_def turn_events_def
      chunk_events_def sendMessage_chat_def sendMessage_stream_def task_at_def
      render_chat_def render_stream_def setLastContent_def replaceLast_def Let_def)

end
